theory Spec2Isabelle
  imports Main "HOL-Library.Sublist"
begin

section \<open>Characters and strings\<close>

text \<open>
  The three scripts of the repository work on Python \<open>str\<close> values. A string is
  modelled as a \<open>string\<close> whose characters are the code points below 256.
  On that range the Unicode whitespace that both \<open>\s\<close> and \<open>str.strip()\<close>
  recognise is U+0009..U+000D, U+001C..U+0020, U+0085 and U+00A0, and the decimal
  digits that \<open>\d\<close> recognises are \<open>0\<close> to \<open>9\<close>.
\<close>

definition isspace :: "char \<Rightarrow> bool" where
  "isspace c =
     (let n = (of_char c :: nat)
      in (9 \<le> n \<and> n \<le> 13) \<or> (28 \<le> n \<and> n \<le> 32) \<or> n = 133 \<or> n = 160)"

definition isdigit :: "char \<Rightarrow> bool" where
  "isdigit c = (let n = (of_char c :: nat) in 48 \<le> n \<and> n \<le> 57)"

text \<open>\<open>str.strip()\<close> with no argument: leading and trailing whitespace removed.\<close>

definition strip :: "string \<Rightarrow> string" where
  "strip s = rev (dropWhile isspace (rev (dropWhile isspace s)))"

section \<open>The regular expressions of the scripts\<close>

text \<open>
  The scripts use these constructs of Python's \<open>re\<close>: literal text, the classes
  \<open>\s\<close>, \<open>\d\<close>, \<open>[^\n]\<close> (and \<open>.\<close>, the same class without \<open>DOTALL\<close>) and
  \<open>[A]\<close>, greedy repetition of a class (\<open>+\<close>, \<open>*\<close>, \<open>{1,3}\<close>), capturing
  groups and concatenation.
\<close>

datatype cclass = CSpace | CDigit | CNotNewline | CSet "char list"

fun in_class :: "cclass \<Rightarrow> char \<Rightarrow> bool" where
  "in_class CSpace c = isspace c"
| "in_class CDigit c = isdigit c"
| "in_class CNotNewline c = (c \<noteq> CHR 0x0A)"
| "in_class (CSet cs) c = (c \<in> set cs)"

datatype regex =
    Lit string
  | Cls cclass
  | Rep cclass nat "nat option"
  | Grp regex
  | Cat regex regex

text \<open>
  \<open>rmatch r s\<close> lists the ways \<open>r\<close> matches at the start of \<open>s\<close>, in the order in
  which the backtracking matcher of \<open>re\<close> tries them: each is the list of texts the
  groups captured (in the order the groups open) and the rest of \<open>s\<close> after the match.
  A greedy repetition tries the longest run first and gives characters back one at a time.
  The head of the list is the match \<open>re\<close> reports.
\<close>

fun rmatch :: "regex \<Rightarrow> string \<Rightarrow> (string list \<times> string) list" where
  "rmatch (Lit l) s = (if prefix l s then [([], drop (length l) s)] else [])"
| "rmatch (Cls k) s =
     (case s of [] \<Rightarrow> [] | c # cs \<Rightarrow> if in_class k c then [([], cs)] else [])"
| "rmatch (Rep k lo hi) s =
     (let n = length (takeWhile (in_class k) s);
          m = (case hi of None \<Rightarrow> n | Some h \<Rightarrow> min n h)
      in map (\<lambda>i. ([], drop i s)) (rev [lo ..< Suc m]))"
| "rmatch (Grp r) s =
     map (\<lambda>(gs, rest). (take (length s - length rest) s # gs, rest)) (rmatch r s)"
| "rmatch (Cat r1 r2) s =
     concat (map (\<lambda>(g1, s1). map (\<lambda>(g2, s2). (g1 @ g2, s2)) (rmatch r2 s1)) (rmatch r1 s))"

text \<open>
  A match object: the text matched (\<open>group(0)\<close>), the groups, and the text after the
  match.
\<close>

record rematch =
  group0 :: string
  groups :: "string list"
  after :: string

definition match_at :: "regex \<Rightarrow> string \<Rightarrow> rematch option" where
  "match_at r s =
     (case rmatch r s of
        [] \<Rightarrow> None
      | (gs, rest) # _ \<Rightarrow>
          Some \<lparr>group0 = take (length s - length rest) s, groups = gs, after = rest\<rparr>)"

text \<open>\<open>re.match\<close>: a match at the start of the string only.\<close>

definition re_match :: "regex \<Rightarrow> string \<Rightarrow> rematch option" where
  "re_match r s = match_at r s"

text \<open>\<open>re.search\<close>: the leftmost position at which the pattern matches.\<close>

fun re_search :: "regex \<Rightarrow> string \<Rightarrow> rematch option" where
  "re_search r [] = match_at r []"
| "re_search r (c # cs) =
     (case match_at r (c # cs) of Some m \<Rightarrow> Some m | None \<Rightarrow> re_search r cs)"

text \<open>
  \<open>re.finditer\<close>, \<open>re.sub\<close> and \<open>re.split\<close> scan the string from left to right for
  matches that do not overlap. Every pattern of the scripts matches at least one
  character (see \<open>patterns_consume\<close> below), so the rules of \<open>re\<close> for empty matches
  play no part: at a position where the match is empty the model moves on by one
  character, as it does where there is no match.
\<close>

function re_finditer :: "regex \<Rightarrow> string \<Rightarrow> rematch list" where
  "re_finditer r [] = []"
| "re_finditer r (c # cs) =
     (case match_at r (c # cs) of
        None \<Rightarrow> re_finditer r cs
      | Some m \<Rightarrow>
          if length (after m) < length (c # cs) then m # re_finditer r (after m)
          else re_finditer r cs)"
  by pat_completeness auto
termination
  by (relation "measure (\<lambda>(r, s). length s)") auto

text \<open>\<open>re.sub(r, repl, s)\<close> for a replacement text without group references.\<close>

function re_sub :: "regex \<Rightarrow> string \<Rightarrow> string \<Rightarrow> string" where
  "re_sub r repl [] = []"
| "re_sub r repl (c # cs) =
     (case match_at r (c # cs) of
        None \<Rightarrow> c # re_sub r repl cs
      | Some m \<Rightarrow>
          if length (after m) < length (c # cs) then repl @ re_sub r repl (after m)
          else c # re_sub r repl cs)"
  by pat_completeness auto
termination
  by (relation "measure (\<lambda>(r, repl, s). length s)") auto

text \<open>
  \<open>re.split(r, s)\<close>: the text before each match, then the groups of the match, and
  last the text after the last match. \<open>acc\<close> is the text since the last match.
\<close>

function re_split_from :: "regex \<Rightarrow> string \<Rightarrow> string \<Rightarrow> string list" where
  "re_split_from r acc [] = [acc]"
| "re_split_from r acc (c # cs) =
     (case match_at r (c # cs) of
        None \<Rightarrow> re_split_from r (acc @ [c]) cs
      | Some m \<Rightarrow>
          if length (after m) < length (c # cs)
          then acc # groups m @ re_split_from r [] (after m)
          else re_split_from r (acc @ [c]) cs)"
  by pat_completeness auto
termination
  by (relation "measure (\<lambda>(r, acc, s). length s)") auto

definition re_split :: "regex \<Rightarrow> string \<Rightarrow> string list" where
  "re_split r s = re_split_from r [] s"

declare re_finditer.simps(2) [simp del]
declare re_sub.simps(2) [simp del]
declare re_split_from.simps(2) [simp del]

subsection \<open>The patterns\<close>

text \<open>\<^verbatim>\<open>r"\s+"\<close>, the pattern of both \<open>clean\<close> functions.\<close>

definition ws_pattern :: regex where
  "ws_pattern = Rep CSpace 1 None"

text \<open>\<^verbatim>\<open>\d\.\d\.\d+\<close>, the shape of a section number in every heading pattern.\<close>

definition section_number :: regex where
  "section_number =
     Cat (Cls CDigit) (Cat (Lit ''.'') (Cat (Cls CDigit) (Cat (Lit ''.'') (Rep CDigit 1 None))))"

text \<open>\<open>wcag22pdfscraper.py\<close>: \<^verbatim>\<open>pattern = r"(\d\.\d\.\d+\s+[^\n]+)"\<close>\<close>

definition pdf_pattern :: regex where
  "pdf_pattern = Grp (Cat section_number (Cat (Rep CSpace 1 None) (Rep CNotNewline 1 None)))"

text \<open>\<open>wcag22pdfscraper.py\<close>: \<^verbatim>\<open>re.match(r"(\d\.\d\.\d+)\s+(.*)", header_txt)\<close>\<close>

definition pdf_header_pattern :: regex where
  "pdf_header_pattern =
     Cat (Grp section_number) (Cat (Rep CSpace 1 None) (Grp (Rep CNotNewline 0 None)))"

text \<open>\<open>wcag_scraper.py\<close>:
  \<^verbatim>\<open>pattern = r"(Success Criterion\s+\d\.\d\.\d+\s+[^\n]+)"\<close>\<close>

definition html_pattern :: regex where
  "html_pattern =
     Grp (Cat (Lit ''Success Criterion'') (Cat (Rep CSpace 1 None)
       (Cat section_number (Cat (Rep CSpace 1 None) (Rep CNotNewline 1 None)))))"

text \<open>\<open>wcag_scraper.py\<close>:
  \<^verbatim>\<open>re.match(r"Success Criterion\s+(\d\.\d\.\d+)\s+(.*)", header)\<close>\<close>

definition html_header_pattern :: regex where
  "html_header_pattern =
     Cat (Lit ''Success Criterion'') (Cat (Rep CSpace 1 None)
       (Cat (Grp section_number) (Cat (Rep CSpace 1 None) (Grp (Rep CNotNewline 0 None)))))"

text \<open>\<open>wcag_scraper.py\<close>: \<^verbatim>\<open>re.search(r"\(Level\s+([A]{1,3})\)", body)\<close>\<close>

definition level_pattern :: regex where
  "level_pattern =
     Cat (Lit ''(Level'') (Cat (Rep CSpace 1 None)
       (Cat (Grp (Rep (CSet ''A'') 1 (Some 3))) (Lit '')'')))"

text \<open>\<open>wcag_scraper.py\<close>: \<^verbatim>\<open>re.sub(r"\(Level\s+[A]{1,3}\)", "", body)\<close>\<close>

definition level_text_pattern :: regex where
  "level_text_pattern =
     Cat (Lit ''(Level'') (Cat (Rep CSpace 1 None)
       (Cat (Rep (CSet ''A'') 1 (Some 3)) (Lit '')'')))"

section \<open>Whitespace normalisation\<close>

datatype error = TypeError | NameError | StopIteration | IndexError

text \<open>
  \<open>wcag22pdfscraper.py\<close>:
  \<^verbatim>\<open>def clean(txt): return re.sub(r"\s+", " ", txt).strip()\<close>
  The argument is any Python value; of those, \<open>None\<close> and strings matter here.
  \<open>re.sub\<close> raises \<open>TypeError\<close> when its subject is \<open>None\<close>.
\<close>

definition clean_pdf :: "string option \<Rightarrow> error + string" where
  "clean_pdf txt =
     (case txt of
        None \<Rightarrow> Inl TypeError
      | Some s \<Rightarrow> Inr (strip (re_sub ws_pattern '' '' s)))"

text \<open>
  \<open>wcag_scraper.py\<close>:
  \<^verbatim>\<open>def clean(text): return re.sub(r"\s+", " ", text or "").strip()\<close>
  \<open>text or ""\<close> is \<open>""\<close> when \<open>text\<close> is \<open>None\<close> or the empty string.
\<close>

definition py_or_empty :: "string option \<Rightarrow> string" where
  "py_or_empty text = (case text of None \<Rightarrow> [] | Some s \<Rightarrow> if s = [] then [] else s)"

definition clean_html :: "string option \<Rightarrow> string" where
  "clean_html text = strip (re_sub ws_pattern '' '' (py_or_empty text))"

section \<open>The chunkers\<close>

text \<open>
  What one pass of a loop body does: \<open>continue\<close>, raise, or append a chunk.
\<close>

datatype 'a outcome = Continue | Raise error | Append 'a

text \<open>
  \<open>zip(it, it)\<close> over one iterator: consecutive items in pairs; an item left over at the
  end is dropped.
\<close>

fun pairs :: "'a list \<Rightarrow> ('a \<times> 'a) list" where
  "pairs (x # y # rest) = (x, y) # pairs rest"
| "pairs [x] = []"
| "pairs [] = []"

subsection \<open>\<open>wcag22pdfscraper.py\<close>\<close>

record pdf_chunk =
  pdf_id :: string
  pdf_section :: string
  pdf_title :: string
  pdf_text :: string
  pdf_source :: string

text \<open>
  The body of the loop \<^verbatim>\<open>for header, body in zip(it, it)\<close>. \<open>m.group(1)\<close> and
  \<open>m.group(2)\<close> are the two groups of the match; \<open>group\<close> raises \<open>IndexError\<close> for a
  group the pattern does not have.
\<close>

definition pdf_body :: "string \<Rightarrow> string \<Rightarrow> pdf_chunk outcome" where
  "pdf_body header body =
     (case clean_pdf (Some header) of
        Inl e \<Rightarrow> Raise e
      | Inr header_txt \<Rightarrow>
          (case re_match pdf_header_pattern header_txt of
             None \<Rightarrow> Continue
           | Some m \<Rightarrow>
               (case groups m of
                  [section, title] \<Rightarrow>
                    (case clean_pdf (Some body) of
                       Inl e \<Rightarrow> Raise e
                     | Inr text \<Rightarrow>
                         Append \<lparr>pdf_id = section, pdf_section = section, pdf_title = title,
                           pdf_text = text, pdf_source = ''WCAG 2.2 PDF''\<rparr>)
                | _ \<Rightarrow> Raise IndexError)))"

fun pdf_loop :: "(string \<times> string) list \<Rightarrow> pdf_chunk list \<Rightarrow> error + pdf_chunk list" where
  "pdf_loop [] chunks = Inr chunks"
| "pdf_loop ((header, body) # rest) chunks =
     (case pdf_body header body of
        Continue \<Rightarrow> pdf_loop rest chunks
      | Raise e \<Rightarrow> Inl e
      | Append chunk \<Rightarrow> pdf_loop rest (chunks @ [chunk]))"

text \<open>
  The script from \<open>re.split\<close> on, for the text \<open>full_text\<close> of the pages.
  \<open>_ = next(it)\<close> raises \<open>StopIteration\<close> on an empty list.
\<close>

definition pdf_chunks :: "string \<Rightarrow> error + pdf_chunk list" where
  "pdf_chunks full_text =
     (case re_split pdf_pattern full_text of
        [] \<Rightarrow> Inl StopIteration
      | _ # it \<Rightarrow> pdf_loop (pairs it) [])"

subsection \<open>\<open>wcag_scraper.py\<close>\<close>

definition WCAG_URL :: string where
  "WCAG_URL = ''https://www.w3.org/TR/WCAG22/''"

record html_chunk =
  html_id :: string
  html_section :: string
  html_title :: string
  html_level :: "string option"
  html_text :: string
  html_source :: string

text \<open>The body of the loop of \<open>extract_success_criteria\<close>.\<close>

definition html_body :: "string \<Rightarrow> string \<Rightarrow> html_chunk outcome" where
  "html_body header0 body0 =
     (let header = clean_html (Some header0);
          body = strip body0
      in case re_match html_header_pattern header of
           None \<Rightarrow> Continue
         | Some m \<Rightarrow>
             (case groups m of
                [section_id, title] \<Rightarrow>
                  (case (case re_search level_pattern body of
                           None \<Rightarrow> Inr None
                         | Some level_match \<Rightarrow>
                             (case groups level_match of
                                [g] \<Rightarrow> Inr (Some g)
                              | _ \<Rightarrow> Inl IndexError)) of
                     Inl e \<Rightarrow> Raise e
                   | Inr level \<Rightarrow>
                       (let body_clean = re_sub level_text_pattern [] body;
                            body_clean = clean_html (Some body_clean)
                        in Append \<lparr>html_id = section_id, html_section = section_id,
                             html_title = title, html_level = level, html_text = body_clean,
                             html_source = WCAG_URL\<rparr>))
              | _ \<Rightarrow> Raise IndexError))"

fun html_loop :: "(string \<times> string) list \<Rightarrow> html_chunk list \<Rightarrow> error + html_chunk list" where
  "html_loop [] chunks = Inr chunks"
| "html_loop ((header, body) # rest) chunks =
     (case html_body header body of
        Continue \<Rightarrow> html_loop rest chunks
      | Raise e \<Rightarrow> Inl e
      | Append chunk \<Rightarrow> html_loop rest (chunks @ [chunk]))"

text \<open>
  \<open>extract_success_criteria\<close> from \<open>re.split\<close> on, for the text \<open>full_text\<close> of the
  page. \<open>parts[1:]\<close> is the list without its first item, and empty for an empty list.
\<close>

definition extract_success_criteria :: "string \<Rightarrow> error + html_chunk list" where
  "extract_success_criteria full_text =
     (let parts = re_split html_pattern full_text
      in html_loop (pairs (drop 1 parts)) [])"

subsection \<open>\<open>import requests.py\<close>\<close>

text \<open>
  An element that \<open>content.find_all(["h1","h2","h3","p","li"])\<close> returns: its tag name
  \<open>el.name\<close> and the text \<open>el.get_text(separator=" ", strip=True)\<close>. A \<open>Tag\<close> of
  the HTML library is true in a condition whatever it contains.
\<close>

record element =
  name :: string
  get_text :: string

definition tag_bool :: "element \<Rightarrow> bool" where
  "tag_bool el = True"

definition url :: string where
  "url = ''https://www.access-board.gov/ict/''"

record ict_chunk =
  ict_id :: string
  ict_source :: string
  ict_text :: string
  ict_type :: string

text \<open>The decimal digits of a number, as the f-string \<^verbatim>\<open>f"{i}"\<close> gives them.\<close>

fun str_nat :: "nat \<Rightarrow> string" where
  "str_nat n =
     (if n < 10 then [char_of (48 + n)]
      else str_nat (n div 10) @ [char_of (48 + n mod 10)])"

declare str_nat.simps [simp del]

text \<open>
  The loop \<^verbatim>\<open>for el in content.find_all(...)\<close>: its state is the list \<open>paragraphs\<close>
  and the loop variable \<open>el\<close>, which is unbound (\<open>None\<close>) until the first pass and keeps
  its last value after the loop.
\<close>

fun extract_loop ::
  "element list \<Rightarrow> string list \<Rightarrow> element option \<Rightarrow> string list \<times> element option" where
  "extract_loop [] paragraphs el = (paragraphs, el)"
| "extract_loop (e # es) paragraphs el =
     (let text = get_text e
      in if text \<noteq> [] then extract_loop es (paragraphs @ [text]) (Some e)
         else extract_loop es paragraphs (Some e))"

text \<open>
  The loop \<^verbatim>\<open>for i, para in enumerate(paragraphs)\<close>. Reading the unbound variable
  \<open>el\<close> raises \<open>NameError\<close>.
\<close>

fun chunk_loop ::
  "(nat \<times> string) list \<Rightarrow> element option \<Rightarrow> ict_chunk list \<Rightarrow> error + ict_chunk list" where
  "chunk_loop [] el chunks = Inr chunks"
| "chunk_loop ((i, para) # rest) el chunks =
     (case el of
        None \<Rightarrow> Inl NameError
      | Some e \<Rightarrow>
          chunk_loop rest el
            (chunks @ [\<lparr>ict_id = ''access-board-ict-'' @ str_nat i, ict_source = url,
               ict_text = para, ict_type = (if tag_bool e then name e else ''p'')\<rparr>]))"

text \<open>The script from the elements of the page on.\<close>

definition ict_chunks :: "element list \<Rightarrow> error + ict_chunk list" where
  "ict_chunks els =
     (case extract_loop els [] None of
        (paragraphs, el) \<Rightarrow> chunk_loop (enumerate 0 paragraphs) el [])"

section \<open>Auxiliary notions\<close>

text \<open>The number of capturing groups of a pattern.\<close>

fun ngroups :: "regex \<Rightarrow> nat" where
  "ngroups (Lit l) = 0"
| "ngroups (Cls k) = 0"
| "ngroups (Rep k lo hi) = 0"
| "ngroups (Grp r) = Suc (ngroups r)"
| "ngroups (Cat r1 r2) = ngroups r1 + ngroups r2"

text \<open>
  The chunk, if any, that one pass of a loop body adds to \<open>chunks\<close>, and the list
  \<open>h\<^sub>1, b\<^sub>1, h\<^sub>2, b\<^sub>2, \<dots>\<close> of a list of pairs, which \<open>pairs\<close> takes apart again.
\<close>

fun emitted :: "'a outcome \<Rightarrow> 'a list" where
  "emitted (Append c) = [c]"
| "emitted Continue = []"
| "emitted (Raise e) = []"

fun interleave :: "('a \<times> 'a) list \<Rightarrow> 'a list" where
  "interleave [] = []"
| "interleave ((h, b) # rest) = h # b # interleave rest"

text \<open>
  The value of \<open>level\<close> in \<open>html_body\<close> for the stripped body text, and the chunk
  that \<open>chunk_loop\<close> appends for an item of \<open>enumerate(paragraphs)\<close> when \<open>el\<close> is
  the element \<open>e\<close>.
\<close>

definition html_level_of :: "string \<Rightarrow> string option" where
  "html_level_of body =
     (case re_search level_pattern body of None \<Rightarrow> None | Some lm \<Rightarrow> Some (hd (groups lm)))"

definition ict_chunk_of :: "element \<Rightarrow> nat \<times> string \<Rightarrow> ict_chunk" where
  "ict_chunk_of e ip =
     \<lparr>ict_id = ''access-board-ict-'' @ str_nat (fst ip), ict_source = url,
      ict_text = snd ip, ict_type = name e\<rparr>"

section \<open>Level markers\<close>

text \<open>
  The notions of the claims about the level, stated without the matcher. A marker is the
  text \<open>(Level\<close>, some whitespace, one to three letters \<open>A\<close> and \<open>)\<close>;
  \<open>is_marker x mk\<close> says that \<open>mk\<close> is a marker with the letters \<open>x\<close>.
\<close>

definition is_marker :: "string \<Rightarrow> string \<Rightarrow> bool" where
  "is_marker x mk \<longleftrightarrow>
     (\<exists>ws. mk = ''(Level'' @ ws @ x @ '')'' \<and> ws \<noteq> [] \<and> list_all isspace ws \<and>
        x \<noteq> [] \<and> length x \<le> 3 \<and> list_all (\<lambda>c. c = CHR ''A'') x)"

text \<open>
  A marker stands at the start of a text; a text contains a marker; and \<open>x\<close> are the
  letters of the leftmost marker of a text.
\<close>

definition marker_at :: "string \<Rightarrow> bool" where
  "marker_at s \<longleftrightarrow> (\<exists>x mk post. is_marker x mk \<and> s = mk @ post)"

definition has_marker :: "string \<Rightarrow> bool" where
  "has_marker s \<longleftrightarrow> (\<exists>pre rest. s = pre @ rest \<and> marker_at rest)"

definition first_marker :: "string \<Rightarrow> string \<Rightarrow> bool" where
  "first_marker s x \<longleftrightarrow>
     (\<exists>pre mk post. s = pre @ mk @ post \<and> is_marker x mk \<and>
        \<not> (\<exists>pre1 pre2. pre = pre1 @ pre2 \<and> pre2 \<noteq> [] \<and> marker_at (pre2 @ mk @ post)))"

text \<open>
  \<open>marker_start p\<close>: \<open>p\<close> is the beginning of a marker, but not all of it. A text is
  \<open>spliced\<close> when a marker in it directly follows such a beginning, as in
  \<open>(Level (Level A)A)\<close>: taking the marker out joins the beginning to what comes after.
\<close>

definition marker_start :: "string \<Rightarrow> bool" where
  "marker_start p \<longleftrightarrow> p \<noteq> [] \<and> (\<exists>q x. q \<noteq> [] \<and> is_marker x (p @ q))"

definition spliced :: "string \<Rightarrow> bool" where
  "spliced s \<longleftrightarrow>
     (\<exists>pre p mk x post. s = pre @ p @ mk @ post \<and> marker_start p \<and> is_marker x mk)"

section \<open>Whitespace normalisation is idempotent\<close>

text \<open>
  What \<^verbatim>\<open>\s+\<close> matches at the start of a string: the longest run of whitespace, when
  there is one.
\<close>

lemma take_length_dropWhile:
  "take (length s - length (dropWhile P s)) s = takeWhile P s"
proof -
  have "length (takeWhile P s) + length (dropWhile P s) = length s"
    by (metis length_append takeWhile_dropWhile_id)
  then have "length s - length (dropWhile P s) = length (takeWhile P s)"
    by simp
  then show ?thesis
    by (simp add: takeWhile_eq_take [symmetric])
qed

lemma rmatch_ws:
  "rmatch ws_pattern s =
     map (\<lambda>i. ([], drop i s)) (rev [1 ..< Suc (length (takeWhile isspace s))])"
  by (simp add: ws_pattern_def cong: takeWhile_cong)

lemma match_at_ws:
  "match_at ws_pattern s =
     (if s \<noteq> [] \<and> isspace (hd s)
      then Some \<lparr>group0 = takeWhile isspace s, groups = [], after = dropWhile isspace s\<rparr>
      else None)"
proof (cases "s \<noteq> [] \<and> isspace (hd s)")
  case True
  let ?n = "length (takeWhile isspace s)"
  from True have n: "1 \<le> ?n" by (cases s) simp_all
  have "rmatch ws_pattern s = ([], drop ?n s) # map (\<lambda>i. ([], drop i s)) (rev [1 ..< ?n])"
    using n by (simp add: rmatch_ws)
  then have "rmatch ws_pattern s =
      ([], dropWhile isspace s) # map (\<lambda>i. ([], drop i s)) (rev [1 ..< ?n])"
    by (simp only: dropWhile_eq_drop [symmetric])
  then have "match_at ws_pattern s =
      Some \<lparr>group0 = take (length s - length (dropWhile isspace s)) s, groups = [],
        after = dropWhile isspace s\<rparr>"
    by (simp add: match_at_def)
  then have "match_at ws_pattern s =
      Some \<lparr>group0 = takeWhile isspace s, groups = [], after = dropWhile isspace s\<rparr>"
    by (simp only: take_length_dropWhile)
  with True show ?thesis by simp
next
  case False
  then have "takeWhile isspace s = []" by (cases s) simp_all
  then have "rmatch ws_pattern s = []" by (simp add: rmatch_ws)
  with False show ?thesis by (simp add: match_at_def)
qed

lemma re_sub_ws_Cons:
  "re_sub ws_pattern '' '' (c # cs) =
     (if isspace c then CHR '' '' # re_sub ws_pattern '' '' (dropWhile isspace cs)
      else c # re_sub ws_pattern '' '' cs)"
proof -
  have "length (dropWhile isspace cs) < Suc (length cs)"
    by (simp add: length_dropWhile_le less_Suc_eq_le)
  then show ?thesis
    by (simp add: re_sub.simps(2) match_at_ws)
qed

lemma re_sub_ws_Nil: "re_sub ws_pattern '' '' [] = []"
  by simp

lemma re_sub_ws_length: "length (re_sub ws_pattern '' '' s) \<le> length s"
proof (induction s rule: length_induct)
  case (1 s)
  show ?case
  proof (cases s)
    case Nil
    then show ?thesis by simp
  next
    case (Cons c cs)
    have d: "length (dropWhile isspace cs) \<le> length cs"
      by (rule length_dropWhile_le)
    show ?thesis
    proof (cases "isspace c")
      case True
      have "length (re_sub ws_pattern '' '' (dropWhile isspace cs)) \<le> length (dropWhile isspace cs)"
        using 1 d Cons by simp
      with d True Cons show ?thesis by (simp add: re_sub_ws_Cons)
    next
      case False
      have "length (re_sub ws_pattern '' '' cs) \<le> length cs"
        using 1 Cons by simp
      with False Cons show ?thesis by (simp add: re_sub_ws_Cons)
    qed
  qed
qed

lemma dropWhile_same_length: "length (dropWhile P xs) = length xs \<Longrightarrow> dropWhile P xs = xs"
  by (metis append_eq_conv_conj drop_all dropWhile_eq_drop le_refl length_0_conv length_drop
      takeWhile_dropWhile_id diff_self_eq_0 add_diff_cancel_right' length_append append_Nil)

lemma re_sub_ws_fix_parts:
  "re_sub ws_pattern '' '' (a @ b) = a @ b \<Longrightarrow>
     re_sub ws_pattern '' '' a = a \<and> re_sub ws_pattern '' '' b = b"
proof (induction a)
  case Nil
  then show ?case by simp
next
  case (Cons c cs)
  show ?case
  proof (cases "isspace c")
    case False
    with Cons.prems have "re_sub ws_pattern '' '' (cs @ b) = cs @ b"
      by (simp add: re_sub_ws_Cons)
    with Cons.IH False show ?thesis by (simp add: re_sub_ws_Cons)
  next
    case True
    let ?d = "dropWhile isspace (cs @ b)"
    from Cons.prems have p: "re_sub ws_pattern '' '' (c # cs @ b) = c # cs @ b"
      by simp
    have q: "re_sub ws_pattern '' '' (c # cs @ b) = CHR '' '' # re_sub ws_pattern '' '' ?d"
      using True by (simp add: re_sub_ws_Cons)
    from q [symmetric] p have "CHR '' '' # re_sub ws_pattern '' '' ?d = c # cs @ b"
      by (rule trans)
    then have "CHR '' '' = c \<and> re_sub ws_pattern '' '' ?d = cs @ b"
      by (rule list.inject [THEN iffD1])
    then have c: "c = CHR '' ''" and e: "re_sub ws_pattern '' '' ?d = cs @ b"
      by (rule conjunct1 [THEN sym], rule conjunct2)
    have "length (cs @ b) \<le> length ?d"
      using re_sub_ws_length [of ?d] e by simp
    moreover have "length ?d \<le> length (cs @ b)" by (rule length_dropWhile_le)
    ultimately have d: "?d = cs @ b" by (simp add: dropWhile_same_length)
    with e have "re_sub ws_pattern '' '' (cs @ b) = cs @ b" by simp
    with Cons.IH have ih: "re_sub ws_pattern '' '' cs = cs" "re_sub ws_pattern '' '' b = b"
      by simp_all
    have "dropWhile isspace cs = cs"
    proof (cases cs)
      case Nil
      then show ?thesis by simp
    next
      case (Cons x xs)
      have "\<not> isspace x"
      proof
        assume "isspace x"
        with d Cons have "dropWhile isspace (xs @ b) = x # xs @ b" by simp
        then have "length (dropWhile isspace (xs @ b)) = length (x # xs @ b)"
          by (rule arg_cong)
        with length_dropWhile_le [of isspace "xs @ b"] show False by simp
      qed
      with Cons show ?thesis by simp
    qed
    with ih True c show ?thesis by (simp add: re_sub_ws_Cons)
  qed
qed

lemma dropWhile_re_sub_ws:
  "d = [] \<or> \<not> isspace (hd d) \<Longrightarrow>
     dropWhile isspace (re_sub ws_pattern '' '' d) = re_sub ws_pattern '' '' d"
  by (cases d) (auto simp: re_sub_ws_Cons)

lemma dropWhile_hd: "dropWhile P xs = [] \<or> \<not> P (hd (dropWhile P xs))"
  by (metis hd_dropWhile)

lemma re_sub_ws_idem:
  "re_sub ws_pattern '' '' (re_sub ws_pattern '' '' s) = re_sub ws_pattern '' '' s"
proof (induction s rule: length_induct)
  case (1 s)
  show ?case
  proof (cases s)
    case Nil
    then show ?thesis by simp
  next
    case (Cons c cs)
    show ?thesis
    proof (cases "isspace c")
      case True
      let ?d = "dropWhile isspace cs"
      have sp: "isspace CHR '' ''" by (simp add: isspace_def)
      have "length ?d < length s" using Cons
        by (simp add: length_dropWhile_le less_Suc_eq_le)
      with 1 have ih: "re_sub ws_pattern '' '' (re_sub ws_pattern '' '' ?d) = re_sub ws_pattern '' '' ?d"
        by simp
      have "dropWhile isspace (re_sub ws_pattern '' '' ?d) = re_sub ws_pattern '' '' ?d"
        by (rule dropWhile_re_sub_ws) (rule dropWhile_hd)
      with ih True Cons sp show ?thesis by (simp add: re_sub_ws_Cons)
    next
      case False
      with 1 Cons show ?thesis by (simp add: re_sub_ws_Cons)
    qed
  qed
qed

lemma strip_parts: "\<exists>a b. s = a @ strip s @ b"
proof -
  let ?d = "dropWhile isspace s"
  have "s = takeWhile isspace s @ ?d" by simp
  moreover have "?d = strip s @ rev (takeWhile isspace (rev ?d))"
    unfolding strip_def by (metis rev_append rev_rev_ident takeWhile_dropWhile_id)
  ultimately have "s = takeWhile isspace s @ strip s @ rev (takeWhile isspace (rev ?d))"
    by simp
  then show ?thesis by blast
qed

lemma re_sub_ws_strip_fix:
  assumes "re_sub ws_pattern '' '' y = y"
  shows "re_sub ws_pattern '' '' (strip y) = strip y"
proof -
  obtain a b where y: "y = a @ strip y @ b" using strip_parts by blast
  with assms have "re_sub ws_pattern '' '' (a @ (strip y @ b)) = a @ (strip y @ b)" by simp
  then have "re_sub ws_pattern '' '' (strip y @ b) = strip y @ b"
    using re_sub_ws_fix_parts by blast
  then show ?thesis using re_sub_ws_fix_parts by blast
qed

lemma strip_idem: "strip (strip t) = strip t"
proof -
  let ?d = "dropWhile isspace t"
  let ?u = "rev (dropWhile isspace (rev ?d))"
  have u: "strip t = ?u" by (simp add: strip_def)
  have "dropWhile isspace ?u = ?u"
  proof (cases "?u = []")
    case True
    show ?thesis by (simp only: True dropWhile.simps)
  next
    case False
    have "?d = ?u @ rev (takeWhile isspace (rev ?d))"
      by (metis rev_append rev_rev_ident takeWhile_dropWhile_id)
    with False have h: "hd ?u = hd ?d" by (metis hd_append2)
    from False have "?d \<noteq> []" by (auto dest: set_dropWhileD)
    then have "\<not> isspace (hd ?d)" by (rule hd_dropWhile)
    then have "\<not> isspace (hd ?u)" unfolding h .
    with False show ?thesis by (cases ?u) simp_all
  qed
  moreover have "strip ?u = rev (dropWhile isspace (rev (dropWhile isspace ?u)))"
    by (simp only: strip_def)
  ultimately have "strip ?u = rev (dropWhile isspace (rev ?u))" by (simp only:)
  also have "\<dots> = ?u" by simp
  finally show ?thesis by (simp only: u)
qed

lemma clean_string_idem:
  "strip (re_sub ws_pattern '' '' (strip (re_sub ws_pattern '' '' x))) =
     strip (re_sub ws_pattern '' '' x)"
  by (simp add: re_sub_ws_strip_fix re_sub_ws_idem strip_idem)

text \<open>
  C8. Cleaning a cleaned string changes nothing, for every string \<open>x\<close>: in
  \<open>wcag22pdfscraper.py\<close> \<open>clean(x)\<close> returns a string \<open>y\<close> and \<open>clean(y)\<close> returns
  \<open>y\<close> again, and in \<open>wcag_scraper.py\<close> \<open>clean(clean(x)) == clean(x)\<close>.
\<close>

theorem clean_idempotent:
  "(\<exists>y. clean_pdf (Some x) = Inr y \<and> clean_pdf (Some y) = Inr y) \<and>
   clean_html (Some (clean_html (Some x))) = clean_html (Some x)"
  by (simp add: clean_pdf_def clean_html_def py_or_empty_def clean_string_idem)

theorem clean_idempotent_witness:
  "clean_pdf (Some ''  a \<newline>  b '') = Inr ''a b'' \<and> clean_pdf (Some ''a b'') = Inr ''a b'' \<and>
   clean_html (Some (clean_html (Some ''  a \<newline>  b ''))) = ''a b''"
proof -
  have e: "re_sub ws_pattern '' '' ''  a \<newline>  b '' = '' a b ''"
    by (simp add: re_sub_ws_Cons isspace_def)
  have p: "clean_pdf (Some ''  a \<newline>  b '') = Inr ''a b''"
    by (simp add: clean_pdf_def e strip_def isspace_def)
  have h: "clean_html (Some ''  a \<newline>  b '') = ''a b''"
    by (simp add: clean_html_def py_or_empty_def e strip_def isspace_def)
  from clean_idempotent [of "''  a \<newline>  b ''"] p h show ?thesis
    by simp
qed

text \<open>
  C10. \<open>clean(None)\<close> returns the empty string in \<open>wcag_scraper.py\<close>, where the
  argument passes through \<open>text or ""\<close>; in \<open>wcag22pdfscraper.py\<close> the same call
  raises, \<open>re.sub\<close> being given \<open>None\<close>.
\<close>

theorem clean_None:
  "clean_html None = [] \<and> clean_pdf None = Inl TypeError"
  by (simp add: clean_html_def py_or_empty_def clean_pdf_def strip_def)

section \<open>The page-scrape script\<close>

lemma extract_loop_eq:
  "extract_loop es paragraphs el =
     (paragraphs @ filter (\<lambda>t. t \<noteq> []) (map get_text es),
      if es = [] then el else Some (last es))"
  by (induction es arbitrary: paragraphs el) (simp_all add: Let_def)

lemma chunk_loop_Some:
  "chunk_loop ips (Some e) chunks = Inr (chunks @ map (ict_chunk_of e) ips)"
  by (induction ips arbitrary: chunks) (auto simp: ict_chunk_of_def tag_bool_def)

lemma ict_chunks_Nil: "ict_chunks [] = Inr []"
  by (simp add: ict_chunks_def enumerate_eq_zip)

lemma ict_chunks_eq:
  "els \<noteq> [] \<Longrightarrow>
   ict_chunks els =
     Inr (map (ict_chunk_of (last els))
       (enumerate 0 (filter (\<lambda>t. t \<noteq> []) (map get_text els))))"
  by (simp add: ict_chunks_def extract_loop_eq chunk_loop_Some)

text \<open>
  C2. When some element of the page has text, \<open>import requests.py\<close> returns chunks,
  and the \<open>type\<close> of every one of them is the tag name of the last element the first
  loop visited, whichever element the text of the chunk came from.
\<close>

theorem ict_type_last_element:
  assumes "e \<in> set els" and "get_text e \<noteq> []"
  shows "\<exists>chunks. ict_chunks els = Inr chunks \<and> chunks \<noteq> [] \<and>
           (\<forall>c \<in> set chunks. ict_type c = name (last els))"
proof -
  from assms(1) have ne: "els \<noteq> []" by auto
  let ?ps = "filter (\<lambda>t. t \<noteq> []) (map get_text els)"
  from assms have "get_text e \<in> set ?ps" by simp
  then have "?ps \<noteq> []" by (metis empty_iff empty_set)
  then have "enumerate 0 ?ps \<noteq> []"
    by (metis length_enumerate length_0_conv)
  then have "map (ict_chunk_of (last els)) (enumerate 0 ?ps) \<noteq> []"
    by (metis map_is_Nil_conv)
  moreover have "\<forall>c \<in> set (map (ict_chunk_of (last els)) (enumerate 0 ?ps)).
      ict_type c = name (last els)"
    by (simp add: ict_chunk_of_def)
  ultimately show ?thesis using ict_chunks_eq [OF ne] by blast
qed

lemma str_nat_0: "str_nat 0 = ''0''" by code_simp
lemma str_nat_1: "str_nat 1 = ''1''" by code_simp

theorem ict_type_last_element_witness:
  "ict_chunks [\<lparr>name = ''h1'', get_text = ''Title''\<rparr>, \<lparr>name = ''p'', get_text = ''Body''\<rparr>] =
     Inr [\<lparr>ict_id = ''access-board-ict-0'', ict_source = url, ict_text = ''Title'',
            ict_type = ''p''\<rparr>,
          \<lparr>ict_id = ''access-board-ict-1'', ict_source = url, ict_text = ''Body'',
            ict_type = ''p''\<rparr>] \<and>
   name (last [\<lparr>name = ''h1'', get_text = ''Title''\<rparr>, \<lparr>name = ''p'', get_text = ''Body''\<rparr>]) = ''p''"
proof -
  let ?els = "[\<lparr>name = ''h1'', get_text = ''Title''\<rparr>, \<lparr>name = ''p'', get_text = ''Body''\<rparr>]"
  have "\<lparr>name = ''h1'', get_text = ''Title''\<rparr> \<in> set ?els" by simp
  moreover have "get_text \<lparr>name = ''h1'', get_text = ''Title''\<rparr> \<noteq> []" by simp
  ultimately have "\<exists>chunks. ict_chunks ?els = Inr chunks \<and> chunks \<noteq> [] \<and>
           (\<forall>c \<in> set chunks. ict_type c = name (last ?els))"
    by (rule ict_type_last_element)
  moreover have "ict_chunks ?els =
     Inr [\<lparr>ict_id = ''access-board-ict-0'', ict_source = url, ict_text = ''Title'',
            ict_type = ''p''\<rparr>,
          \<lparr>ict_id = ''access-board-ict-1'', ict_source = url, ict_text = ''Body'',
            ict_type = ''p''\<rparr>]"
    by code_simp
  ultimately show ?thesis by simp
qed

text \<open>
  C7. For the elements \<open>("h1", "Title")\<close>, \<open>("p", "")\<close>, \<open>("p", "Body text")\<close> the
  script returns two chunks: the empty element is dropped, and the ids are built from the
  indices 0 and 1 of the chunks that remain.
\<close>

theorem ict_example:
  "ict_chunks [\<lparr>name = ''h1'', get_text = ''Title''\<rparr>, \<lparr>name = ''p'', get_text = ''''\<rparr>,
               \<lparr>name = ''p'', get_text = ''Body text''\<rparr>] =
     Inr [\<lparr>ict_id = ''access-board-ict-0'', ict_source = url, ict_text = ''Title'',
            ict_type = ''p''\<rparr>,
          \<lparr>ict_id = ''access-board-ict-1'', ict_source = url, ict_text = ''Body text'',
            ict_type = ''p''\<rparr>]"
  by code_simp

lemma ict_chunks_length:
  "\<exists>chunks. ict_chunks els = Inr chunks \<and> length chunks \<le> length els"
proof (cases "els = []")
  case True
  then show ?thesis by (simp add: ict_chunks_Nil)
next
  case False
  have "length (filter (\<lambda>t. t \<noteq> []) (map get_text els)) \<le> length els"
    by (metis length_filter_le length_map)
  with ict_chunks_eq [OF False] show ?thesis by (simp add: enumerate_eq_zip)
qed

section \<open>Matches, groups and splitting\<close>

lemma rmatch_Rep_mem:
  "(gs, rest) \<in> set (rmatch (Rep k lo hi) s) \<Longrightarrow> gs = [] \<and> (\<exists>i. rest = drop i s)"
  by (auto simp: Let_def)

lemma rmatch_groups: "(gs, rest) \<in> set (rmatch r s) \<Longrightarrow> length gs = ngroups r"
proof (induction r arbitrary: gs rest s)
  case (Cat r1 r2)
  from Cat.prems obtain g1 s1 g2 where
    "(g1, s1) \<in> set (rmatch r1 s)" "(g2, rest) \<in> set (rmatch r2 s1)" "gs = g1 @ g2"
    by auto
  with Cat.IH show ?case by fastforce
next
  case (Rep k lo hi)
  then have "gs = []" by (blast dest: rmatch_Rep_mem)
  then show ?case by simp
qed (auto split: if_splits list.splits)

lemma rmatch_suffix: "(gs, rest) \<in> set (rmatch r s) \<Longrightarrow> suffix rest s"
proof (induction r arbitrary: gs rest s)
  case (Cat r1 r2)
  from Cat.prems obtain g1 s1 g2 where
    "(g1, s1) \<in> set (rmatch r1 s)" "(g2, rest) \<in> set (rmatch r2 s1)"
    by auto
  with Cat.IH show ?case by (meson suffix_order.trans)
next
  case (Lit l)
  then show ?case by (auto split: if_splits simp: suffix_drop)
next
  case (Cls k)
  then show ?case by (auto split: if_splits list.splits simp: suffix_Cons)
next
  case (Rep k lo hi)
  then obtain i where "rest = drop i s" by (blast dest: rmatch_Rep_mem)
  then show ?case by (simp add: suffix_drop)
next
  case (Grp r)
  then show ?case by auto
qed

lemma match_at_SomeD:
  assumes "match_at r s = Some m"
  shows "(groups m, after m) \<in> set (rmatch r s)"
    and "group0 m = take (length s - length (after m)) s"
  using assms by (auto simp: match_at_def split: list.splits)

lemma match_at_groups: "match_at r s = Some m \<Longrightarrow> length (groups m) = ngroups r"
  by (auto dest: match_at_SomeD(1) rmatch_groups)

lemma match_at_text:
  assumes "match_at r s = Some m"
  shows "s = group0 m @ after m"
proof -
  from assms have "suffix (after m) s"
    by (auto dest: match_at_SomeD(1) rmatch_suffix)
  then obtain p where p: "s = p @ after m" by (auto simp: suffix_def)
  then have "take (length s - length (after m)) s = p" by simp
  with match_at_SomeD(2) [OF assms] p show ?thesis by simp
qed

lemma match_at_Grp_groups:
  assumes "match_at (Grp r) s = Some m" and "ngroups r = 0"
  shows "groups m = [group0 m]"
proof -
  from assms(1) obtain gs where
    gs: "(gs, after m) \<in> set (rmatch r s)"
      "groups m = take (length s - length (after m)) s # gs"
    by (cases "rmatch r s") (auto simp: match_at_def split: prod.splits)
  from gs(1) assms(2) have "gs = []" by (auto dest: rmatch_groups)
  with gs(2) match_at_SomeD(2) [OF assms(1)] show ?thesis by simp
qed

lemma pairs_interleave: "pairs (interleave hbs) = hbs"
  by (induction hbs) auto

lemma re_split_from_struct:
  assumes G: "\<forall>t m. match_at r t = Some m \<longrightarrow> groups m = [group0 m]"
  shows "\<exists>pre hbs. re_split_from r acc s = pre # interleave hbs \<and>
           pre @ concat (map (\<lambda>(h, b). h @ b) hbs) = acc @ s \<and>
           map fst hbs = map group0 (re_finditer r s)"
  using G
proof (induction r acc s rule: re_split_from.induct)
  case (1 r acc)
  have "re_split_from r acc [] = acc # interleave []" by simp
  then show ?case by fastforce
next
  case (2 r acc c cs)
  show ?case
  proof (cases "match_at r (c # cs)")
    case None
    from 2(1) [OF None 2(4)] obtain pre hbs where ih:
      "re_split_from r (acc @ [c]) cs = pre # interleave hbs"
      "pre @ concat (map (\<lambda>(h, b). h @ b) hbs) = (acc @ [c]) @ cs"
      "map fst hbs = map group0 (re_finditer r cs)"
      by auto
    have "re_split_from r acc (c # cs) = pre # interleave hbs"
      using None ih(1) by (simp add: re_split_from.simps(2))
    moreover have "pre @ concat (map (\<lambda>(h, b). h @ b) hbs) = acc @ c # cs"
      using ih(2) by simp
    moreover have "map fst hbs = map group0 (re_finditer r (c # cs))"
      using None ih(3) by (simp add: re_finditer.simps(2))
    ultimately show ?thesis by blast
  next
    case (Some m)
    show ?thesis
    proof (cases "length (after m) < length (c # cs)")
      case True
      from 2(2) [OF Some True 2(4)] obtain pre hbs where ih:
        "re_split_from r [] (after m) = pre # interleave hbs"
        "pre @ concat (map (\<lambda>(h, b). h @ b) hbs) = [] @ after m"
        "map fst hbs = map group0 (re_finditer r (after m))"
        by auto
      have g: "groups m = [group0 m]" using Some 2(4) by blast
      have t: "c # cs = group0 m @ after m" using Some by (rule match_at_text)
      have "re_split_from r acc (c # cs) = acc # interleave ((group0 m, pre) # hbs)"
        using Some True g ih(1) by (simp add: re_split_from.simps(2))
      moreover have "acc @ concat (map (\<lambda>(h, b). h @ b) ((group0 m, pre) # hbs)) = acc @ c # cs"
        using ih(2) t by simp
      moreover have "map fst ((group0 m, pre) # hbs) = map group0 (re_finditer r (c # cs))"
        using Some True ih(3) by (simp add: re_finditer.simps(2))
      ultimately show ?thesis by blast
    next
      case False
      from 2(3) [OF Some False 2(4)] obtain pre hbs where ih:
        "re_split_from r (acc @ [c]) cs = pre # interleave hbs"
        "pre @ concat (map (\<lambda>(h, b). h @ b) hbs) = (acc @ [c]) @ cs"
        "map fst hbs = map group0 (re_finditer r cs)"
        by auto
      have "re_split_from r acc (c # cs) = pre # interleave hbs"
        using Some False ih(1) by (simp add: re_split_from.simps(2))
      moreover have "pre @ concat (map (\<lambda>(h, b). h @ b) hbs) = acc @ c # cs"
        using ih(2) by simp
      moreover have "map fst hbs = map group0 (re_finditer r (c # cs))"
        using Some False ih(3) by (simp add: re_finditer.simps(2))
      ultimately show ?thesis by blast
    qed
  qed
qed

section \<open>The loops of the heading scripts\<close>

lemma ngroups_patterns:
  "ngroups pdf_pattern = 1" "ngroups html_pattern = 1"
  "ngroups pdf_header_pattern = 2" "ngroups html_header_pattern = 2"
  "ngroups level_pattern = 1"
  by (simp_all add: pdf_pattern_def html_pattern_def pdf_header_pattern_def
      html_header_pattern_def level_pattern_def section_number_def)

lemma heading_groups:
  "match_at pdf_pattern t = Some m \<Longrightarrow> groups m = [group0 m]"
  "match_at html_pattern t = Some m \<Longrightarrow> groups m = [group0 m]"
  by (auto simp: pdf_pattern_def html_pattern_def section_number_def
      intro!: match_at_Grp_groups)

lemma length_2E: "length xs = 2 \<Longrightarrow> \<exists>a b. xs = [a, b]"
  by (cases xs; cases "tl xs") auto

lemma length_1E: "length xs = 1 \<Longrightarrow> \<exists>a. xs = [a]"
  by (cases xs) auto

lemma pdf_body_cases:
  "pdf_body h b = Continue \<and>
     re_match pdf_header_pattern (strip (re_sub ws_pattern '' '' h)) = None \<or>
   (\<exists>m section title.
      re_match pdf_header_pattern (strip (re_sub ws_pattern '' '' h)) = Some m \<and>
      groups m = [section, title] \<and>
      pdf_body h b = Append \<lparr>pdf_id = section, pdf_section = section, pdf_title = title,
        pdf_text = strip (re_sub ws_pattern '' '' b), pdf_source = ''WCAG 2.2 PDF''\<rparr>)"
proof (cases "re_match pdf_header_pattern (strip (re_sub ws_pattern '' '' h))")
  case None
  then show ?thesis by (simp add: pdf_body_def clean_pdf_def)
next
  case (Some m)
  then have "length (groups m) = 2"
    by (simp add: re_match_def match_at_groups ngroups_patterns)
  then obtain sec title where "groups m = [sec, title]"
    using length_2E by blast
  with Some show ?thesis by (simp add: pdf_body_def clean_pdf_def)
qed

lemma pdf_body_not_Raise: "pdf_body h b \<noteq> Raise e"
  using pdf_body_cases [of h b] by auto

lemma pdf_loop_eq:
  "pdf_loop ps chunks = Inr (chunks @ concat (map (\<lambda>(h, b). emitted (pdf_body h b)) ps))"
proof (induction ps arbitrary: chunks)
  case Nil
  then show ?case by simp
next
  case (Cons p ps)
  obtain h b where p: "p = (h, b)" by (cases p)
  show ?case
  proof (cases "pdf_body h b")
    case (Raise e)
    then show ?thesis using pdf_body_not_Raise by blast
  qed (simp_all add: p Cons.IH)
qed

lemma re_search_SomeD: "re_search r s = Some m \<Longrightarrow> \<exists>t. match_at r t = Some m"
  by (induction s) (auto split: option.splits)

lemma html_body_cases:
  "html_body h b = Continue \<and>
     re_match html_header_pattern (clean_html (Some h)) = None \<or>
   (\<exists>m section title.
      re_match html_header_pattern (clean_html (Some h)) = Some m \<and>
      groups m = [section, title] \<and>
      html_body h b = Append \<lparr>html_id = section, html_section = section, html_title = title,
        html_level = html_level_of (strip b),
        html_text = clean_html (Some (re_sub level_text_pattern [] (strip b))),
        html_source = WCAG_URL\<rparr>)"
proof (cases "re_match html_header_pattern (clean_html (Some h))")
  case None
  then show ?thesis by (simp add: html_body_def)
next
  case (Some m)
  then have "length (groups m) = 2"
    by (simp add: re_match_def match_at_groups ngroups_patterns)
  then obtain sec title where g: "groups m = [sec, title]"
    using length_2E by blast
  show ?thesis
  proof (cases "re_search level_pattern (strip b)")
    case None
    with Some g show ?thesis by (simp add: html_body_def html_level_of_def)
  next
    case (Some lm)
    then obtain t where "match_at level_pattern t = Some lm"
      using re_search_SomeD by blast
    then have "length (groups lm) = 1"
      by (simp add: match_at_groups ngroups_patterns)
    then obtain g1 where "groups lm = [g1]" using length_1E by blast
    with Some g \<open>re_match html_header_pattern (clean_html (Some h)) = Some m\<close>
    show ?thesis by (simp add: html_body_def html_level_of_def)
  qed
qed

lemma html_body_not_Raise: "html_body h b \<noteq> Raise e"
  using html_body_cases [of h b] by auto

lemma html_loop_eq:
  "html_loop ps chunks = Inr (chunks @ concat (map (\<lambda>(h, b). emitted (html_body h b)) ps))"
proof (induction ps arbitrary: chunks)
  case Nil
  then show ?case by simp
next
  case (Cons p ps)
  obtain h b where p: "p = (h, b)" by (cases p)
  show ?case
  proof (cases "html_body h b")
    case (Raise e)
    then show ?thesis using html_body_not_Raise by blast
  qed (simp_all add: p Cons.IH)
qed

lemma pdf_split:
  "\<exists>pre hbs. re_split pdf_pattern s = pre # interleave hbs \<and>
     pre @ concat (map (\<lambda>(h, b). h @ b) hbs) = s \<and>
     map fst hbs = map group0 (re_finditer pdf_pattern s)"
  using re_split_from_struct [of pdf_pattern "[]" s] heading_groups(1)
  by (simp add: re_split_def)

lemma html_split:
  "\<exists>pre hbs. re_split html_pattern s = pre # interleave hbs \<and>
     pre @ concat (map (\<lambda>(h, b). h @ b) hbs) = s \<and>
     map fst hbs = map group0 (re_finditer html_pattern s)"
  using re_split_from_struct [of html_pattern "[]" s] heading_groups(2)
  by (simp add: re_split_def)

lemma length_concat_emitted:
  "length (concat (map (\<lambda>(h, b). emitted (f h b)) ps)) \<le> length ps"
proof (induction ps)
  case Nil
  then show ?case by simp
next
  case (Cons p ps)
  obtain h b where p: "p = (h, b)" by (cases p)
  have "length (emitted (f h b)) \<le> 1" by (cases "f h b") simp_all
  with Cons p show ?case by simp
qed

lemma pdf_chunks_eq:
  "\<exists>pre hbs. full_text = pre @ concat (map (\<lambda>(h, b). h @ b) hbs) \<and>
     hbs = pairs (drop 1 (re_split pdf_pattern full_text)) \<and>
     map fst hbs = map group0 (re_finditer pdf_pattern full_text) \<and>
     pdf_chunks full_text = Inr (concat (map (\<lambda>(h, b). emitted (pdf_body h b)) hbs))"
proof -
  from pdf_split [of full_text] obtain pre hbs where s:
    "re_split pdf_pattern full_text = pre # interleave hbs"
    "pre @ concat (map (\<lambda>(h, b). h @ b) hbs) = full_text"
    "map fst hbs = map group0 (re_finditer pdf_pattern full_text)"
    by auto
  have "pdf_chunks full_text = Inr (concat (map (\<lambda>(h, b). emitted (pdf_body h b)) hbs))"
    by (simp add: pdf_chunks_def s(1) pairs_interleave pdf_loop_eq)
  moreover have "hbs = pairs (drop 1 (re_split pdf_pattern full_text))"
    by (simp add: s(1) pairs_interleave)
  moreover note s(2) [symmetric] s(3)
  ultimately show ?thesis by (intro exI [of _ pre] exI [of _ hbs] conjI)
qed

lemma html_chunks_eq:
  "\<exists>pre hbs. full_text = pre @ concat (map (\<lambda>(h, b). h @ b) hbs) \<and>
     hbs = pairs (drop 1 (re_split html_pattern full_text)) \<and>
     map fst hbs = map group0 (re_finditer html_pattern full_text) \<and>
     extract_success_criteria full_text =
       Inr (concat (map (\<lambda>(h, b). emitted (html_body h b)) hbs))"
proof -
  from html_split [of full_text] obtain pre hbs where s:
    "re_split html_pattern full_text = pre # interleave hbs"
    "pre @ concat (map (\<lambda>(h, b). h @ b) hbs) = full_text"
    "map fst hbs = map group0 (re_finditer html_pattern full_text)"
    by auto
  have "extract_success_criteria full_text =
      Inr (concat (map (\<lambda>(h, b). emitted (html_body h b)) hbs))"
    by (simp add: extract_success_criteria_def s(1) pairs_interleave html_loop_eq)
  moreover have "hbs = pairs (drop 1 (re_split html_pattern full_text))"
    by (simp add: s(1) pairs_interleave)
  moreover note s(2) [symmetric] s(3)
  ultimately show ?thesis by (intro exI [of _ pre] exI [of _ hbs] conjI)
qed

text \<open>
  C6. The output keeps the order of the headings in the text. In both heading scripts the
  text is a front part followed by the headings, each with the body after it, in the order
  in which the scan finds the headings; the output is what the loop body appends for each
  heading and body in that order, one chunk or none, with nothing reordered, dropped as a
  duplicate or inserted.
\<close>

theorem chunks_in_heading_order:
  "(\<exists>pre hbs. full_text = pre @ concat (map (\<lambda>(h, b). h @ b) hbs) \<and>
      hbs = pairs (drop 1 (re_split pdf_pattern full_text)) \<and>
      map fst hbs = map group0 (re_finditer pdf_pattern full_text) \<and>
      pdf_chunks full_text = Inr (concat (map (\<lambda>(h, b). emitted (pdf_body h b)) hbs))) \<and>
   (\<exists>pre hbs. full_text = pre @ concat (map (\<lambda>(h, b). h @ b) hbs) \<and>
      hbs = pairs (drop 1 (re_split html_pattern full_text)) \<and>
      map fst hbs = map group0 (re_finditer html_pattern full_text) \<and>
      extract_success_criteria full_text =
        Inr (concat (map (\<lambda>(h, b). emitted (html_body h b)) hbs)))"
  using pdf_chunks_eq html_chunks_eq by blast

text \<open>
  C5. Both heading scripts return at most as many chunks as the heading pattern has
  matches in the text, and \<open>import requests.py\<close> at most as many as there are elements.
\<close>

theorem chunk_count_bounded:
  "(\<exists>cs. pdf_chunks full_text = Inr cs \<and>
      length cs \<le> length (re_finditer pdf_pattern full_text)) \<and>
   (\<exists>cs. extract_success_criteria full_text = Inr cs \<and>
      length cs \<le> length (re_finditer html_pattern full_text)) \<and>
   (\<exists>cs. ict_chunks els = Inr cs \<and> length cs \<le> length els)"
proof (intro conjI)
  from pdf_chunks_eq [of full_text] obtain pre hbs where s:
    "map fst hbs = map group0 (re_finditer pdf_pattern full_text)"
    "pdf_chunks full_text = Inr (concat (map (\<lambda>(h, b). emitted (pdf_body h b)) hbs))"
    by auto
  from s(1) have "length hbs = length (re_finditer pdf_pattern full_text)"
    by (rule map_eq_imp_length_eq)
  with length_concat_emitted [of pdf_body hbs] s(2)
  show "\<exists>cs. pdf_chunks full_text = Inr cs \<and>
      length cs \<le> length (re_finditer pdf_pattern full_text)"
    by simp
next
  from html_chunks_eq [of full_text] obtain pre hbs where s:
    "map fst hbs = map group0 (re_finditer html_pattern full_text)"
    "extract_success_criteria full_text =
       Inr (concat (map (\<lambda>(h, b). emitted (html_body h b)) hbs))"
    by auto
  from s(1) have "length hbs = length (re_finditer html_pattern full_text)"
    by (rule map_eq_imp_length_eq)
  with length_concat_emitted [of html_body hbs] s(2)
  show "\<exists>cs. extract_success_criteria full_text = Inr cs \<and>
      length cs \<le> length (re_finditer html_pattern full_text)"
    by simp
next
  show "\<exists>cs. ict_chunks els = Inr cs \<and> length cs \<le> length els"
    by (rule ict_chunks_length)
qed

text \<open>
  C3. A pair whose cleaned heading does not match the pattern that takes the heading
  apart is passed over by the loop body, and the loop returns, without an error, the
  chunks it returns when the pair is not in the list at all: the pairs before and after
  it give the same chunks.
\<close>

theorem malformed_heading_skipped:
  "(clean_pdf (Some h) = Inr t \<and> re_match pdf_header_pattern t = None \<longrightarrow>
      pdf_body h b = Continue \<and>
      (\<exists>cs. pdf_loop (ps @ (h, b) # qs) acc = Inr cs \<and> pdf_loop (ps @ qs) acc = Inr cs)) \<and>
   (re_match html_header_pattern (clean_html (Some h)) = None \<longrightarrow>
      html_body h b = Continue \<and>
      (\<exists>cs. html_loop (ps' @ (h, b) # qs') acc' = Inr cs \<and>
            html_loop (ps' @ qs') acc' = Inr cs))"
proof (intro conjI impI)
  assume a: "clean_pdf (Some h) = Inr t \<and> re_match pdf_header_pattern t = None"
  then have "re_match pdf_header_pattern (strip (re_sub ws_pattern '' '' h)) = None"
    by (auto simp: clean_pdf_def)
  with pdf_body_cases [of h b] show c: "pdf_body h b = Continue" by auto
  then show "\<exists>cs. pdf_loop (ps @ (h, b) # qs) acc = Inr cs \<and> pdf_loop (ps @ qs) acc = Inr cs"
    by (simp add: pdf_loop_eq)
next
  assume "re_match html_header_pattern (clean_html (Some h)) = None"
  with html_body_cases [of h b] show c: "html_body h b = Continue" by auto
  then show "\<exists>cs. html_loop (ps' @ (h, b) # qs') acc' = Inr cs \<and>
            html_loop (ps' @ qs') acc' = Inr cs"
    by (simp add: html_loop_eq)
qed

theorem malformed_heading_skipped_witness:
  "clean_pdf (Some ''1.1.1  '') = Inr ''1.1.1'' \<and>
   re_match pdf_header_pattern ''1.1.1'' = None \<and>
   pairs (drop 1 (re_split pdf_pattern ''1.2.1 T\<newline>B\<newline>1.1.1  \<newline>'')) =
     [(''1.2.1 T'', ''\<newline>B\<newline>'')] @ (''1.1.1  '', ''\<newline>'') # [] \<and>
   pdf_loop ([(''1.2.1 T'', ''\<newline>B\<newline>'')] @ (''1.1.1  '', ''\<newline>'') # []) [] =
     Inr [\<lparr>pdf_id = ''1.2.1'', pdf_section = ''1.2.1'', pdf_title = ''T'', pdf_text = ''B'',
            pdf_source = ''WCAG 2.2 PDF''\<rparr>] \<and>
   re_match html_header_pattern (clean_html (Some ''Success Criterion 1.1.1  '')) = None \<and>
   html_loop ([] @ (''Success Criterion 1.1.1  '', ''x'') #
       [(''Success Criterion 1.2.1 T'', ''B (Level A)'')]) [] =
     Inr [\<lparr>html_id = ''1.2.1'', html_section = ''1.2.1'', html_title = ''T'',
            html_level = Some ''A'', html_text = ''B'', html_source = WCAG_URL\<rparr>]"
proof -
  have p1: "clean_pdf (Some ''1.1.1  '') = Inr ''1.1.1''" by code_simp
  have p2: "re_match pdf_header_pattern ''1.1.1'' = None" by code_simp
  have p3: "pairs (drop 1 (re_split pdf_pattern ''1.2.1 T\<newline>B\<newline>1.1.1  \<newline>'')) =
     [(''1.2.1 T'', ''\<newline>B\<newline>'')] @ (''1.1.1  '', ''\<newline>'') # []" by code_simp
  have p4: "pdf_loop ([(''1.2.1 T'', ''\<newline>B\<newline>'')] @ []) [] =
     Inr [\<lparr>pdf_id = ''1.2.1'', pdf_section = ''1.2.1'', pdf_title = ''T'', pdf_text = ''B'',
            pdf_source = ''WCAG 2.2 PDF''\<rparr>]" by code_simp
  have h1: "re_match html_header_pattern (clean_html (Some ''Success Criterion 1.1.1  '')) = None"
    by code_simp
  have h2: "html_loop ([] @ [(''Success Criterion 1.2.1 T'', ''B (Level A)'')]) [] =
     Inr [\<lparr>html_id = ''1.2.1'', html_section = ''1.2.1'', html_title = ''T'',
            html_level = Some ''A'', html_text = ''B'', html_source = WCAG_URL\<rparr>]"
    by code_simp
  note t1 = malformed_heading_skipped [of "''1.1.1  ''" "''1.1.1''" "''\<newline>''"
      "[(''1.2.1 T'', ''\<newline>B\<newline>'')]" "[]" "[]" "[]" "[]" "[]"]
  note t2 = malformed_heading_skipped [of "''Success Criterion 1.1.1  ''" "[]" "''x''"
      "[]" "[]" "[]" "[]" "[(''Success Criterion 1.2.1 T'', ''B (Level A)'')]" "[]"]
  from t1 p1 p2 p4 have c1:
    "pdf_loop ([(''1.2.1 T'', ''\<newline>B\<newline>'')] @ (''1.1.1  '', ''\<newline>'') # []) [] =
     Inr [\<lparr>pdf_id = ''1.2.1'', pdf_section = ''1.2.1'', pdf_title = ''T'', pdf_text = ''B'',
            pdf_source = ''WCAG 2.2 PDF''\<rparr>]"
    by auto
  from t2 h1 h2 have c2:
    "html_loop ([] @ (''Success Criterion 1.1.1  '', ''x'') #
       [(''Success Criterion 1.2.1 T'', ''B (Level A)'')]) [] =
     Inr [\<lparr>html_id = ''1.2.1'', html_section = ''1.2.1'', html_title = ''T'',
            html_level = Some ''A'', html_text = ''B'', html_source = WCAG_URL\<rparr>]"
    by auto
  from p1 p2 p3 c1 h1 c2 show ?thesis by (intro conjI)
qed

lemma re_sub_ws_all_space:
  assumes "\<forall>c \<in> set b. isspace c"
  shows "strip (re_sub ws_pattern '' '' b) = []"
proof (cases b)
  case Nil
  then show ?thesis by (simp add: strip_def)
next
  case (Cons c cs)
  from assms Cons have c: "isspace c" by simp
  from assms Cons have d: "dropWhile isspace cs = []" by simp
  have "re_sub ws_pattern '' '' (c # cs) =
      CHR '' '' # re_sub ws_pattern '' '' (dropWhile isspace cs)"
    using c by (simp add: re_sub_ws_Cons)
  also have "\<dots> = CHR '' '' # re_sub ws_pattern '' '' []" by (simp only: d)
  also have "\<dots> = '' ''" by simp
  finally show ?thesis using Cons by (simp add: strip_def isspace_def)
qed

lemma strip_all_space: "\<forall>c \<in> set b. isspace c \<Longrightarrow> strip b = []"
  by (auto simp: strip_def dest: set_dropWhileD)

lemma clean_html_Nil: "clean_html (Some (re_sub level_text_pattern [] [])) = []"
  by (simp add: clean_html_def py_or_empty_def strip_def)

lemma level_of_Nil: "html_level_of [] = None"
  by (simp add: html_level_of_def match_at_def level_pattern_def)

text \<open>
  C9. A pair whose body is empty or all whitespace, and whose heading is taken apart,
  still gives a chunk, between the chunks of the pairs before and after it, and the
  \<open>text\<close> of that chunk is the empty string.
\<close>

theorem empty_body_still_emitted:
  assumes "\<forall>c \<in> set b. isspace c"
  shows
    "(clean_pdf (Some h) = Inr t \<and> re_match pdf_header_pattern t = Some m \<longrightarrow>
       (\<exists>sec title cs1 cs2. groups m = [sec, title] \<and>
          pdf_loop ps [] = Inr cs1 \<and> pdf_loop qs [] = Inr cs2 \<and>
          pdf_loop (ps @ (h, b) # qs) [] =
            Inr (cs1 @ \<lparr>pdf_id = sec, pdf_section = sec, pdf_title = title, pdf_text = [],
                        pdf_source = ''WCAG 2.2 PDF''\<rparr> # cs2))) \<and>
     (re_match html_header_pattern (clean_html (Some h)) = Some m' \<longrightarrow>
       (\<exists>sec title cs1 cs2. groups m' = [sec, title] \<and>
          html_loop ps' [] = Inr cs1 \<and> html_loop qs' [] = Inr cs2 \<and>
          html_loop (ps' @ (h, b) # qs') [] =
            Inr (cs1 @ \<lparr>html_id = sec, html_section = sec, html_title = title,
                        html_level = None, html_text = [], html_source = WCAG_URL\<rparr> # cs2)))"
proof (intro conjI impI)
  assume a: "clean_pdf (Some h) = Inr t \<and> re_match pdf_header_pattern t = Some m"
  then have "re_match pdf_header_pattern (strip (re_sub ws_pattern '' '' h)) = Some m"
    by (auto simp: clean_pdf_def)
  with pdf_body_cases [of h b] obtain sec title where g: "groups m = [sec, title]"
    and "pdf_body h b = Append \<lparr>pdf_id = sec, pdf_section = sec, pdf_title = title,
        pdf_text = strip (re_sub ws_pattern '' '' b), pdf_source = ''WCAG 2.2 PDF''\<rparr>"
    by auto
  with assms have "pdf_body h b = Append \<lparr>pdf_id = sec, pdf_section = sec, pdf_title = title,
        pdf_text = [], pdf_source = ''WCAG 2.2 PDF''\<rparr>"
    by (simp add: re_sub_ws_all_space)
  then have "pdf_loop (ps @ (h, b) # qs) [] =
      Inr (concat (map (\<lambda>(h, b). emitted (pdf_body h b)) ps) @
        \<lparr>pdf_id = sec, pdf_section = sec, pdf_title = title, pdf_text = [],
         pdf_source = ''WCAG 2.2 PDF''\<rparr> # concat (map (\<lambda>(h, b). emitted (pdf_body h b)) qs))"
    by (simp add: pdf_loop_eq)
  with g show "\<exists>sec title cs1 cs2. groups m = [sec, title] \<and>
          pdf_loop ps [] = Inr cs1 \<and> pdf_loop qs [] = Inr cs2 \<and>
          pdf_loop (ps @ (h, b) # qs) [] =
            Inr (cs1 @ \<lparr>pdf_id = sec, pdf_section = sec, pdf_title = title, pdf_text = [],
                        pdf_source = ''WCAG 2.2 PDF''\<rparr> # cs2)"
    by (simp add: pdf_loop_eq)
next
  assume a: "re_match html_header_pattern (clean_html (Some h)) = Some m'"
  with html_body_cases [of h b] obtain sec title where g: "groups m' = [sec, title]"
    and hb: "html_body h b = Append \<lparr>html_id = sec, html_section = sec, html_title = title,
        html_level = html_level_of (strip b),
        html_text = clean_html (Some (re_sub level_text_pattern [] (strip b))),
        html_source = WCAG_URL\<rparr>"
    by auto
  from hb have "html_body h b = Append \<lparr>html_id = sec, html_section = sec, html_title = title,
        html_level = None, html_text = [], html_source = WCAG_URL\<rparr>"
    by (simp only: strip_all_space [OF assms] level_of_Nil clean_html_Nil)
  then have "html_loop (ps' @ (h, b) # qs') [] =
      Inr (concat (map (\<lambda>(h, b). emitted (html_body h b)) ps') @
        \<lparr>html_id = sec, html_section = sec, html_title = title, html_level = None,
         html_text = [], html_source = WCAG_URL\<rparr> #
        concat (map (\<lambda>(h, b). emitted (html_body h b)) qs'))"
    by (simp add: html_loop_eq)
  with g show "\<exists>sec title cs1 cs2. groups m' = [sec, title] \<and>
          html_loop ps' [] = Inr cs1 \<and> html_loop qs' [] = Inr cs2 \<and>
          html_loop (ps' @ (h, b) # qs') [] =
            Inr (cs1 @ \<lparr>html_id = sec, html_section = sec, html_title = title,
                        html_level = None, html_text = [], html_source = WCAG_URL\<rparr> # cs2)"
    by (simp add: html_loop_eq)
qed

theorem empty_body_still_emitted_witness:
  "list_all isspace '' \<newline>'' \<and>
   clean_pdf (Some ''1.2.1 T'') = Inr ''1.2.1 T'' \<and>
   re_match pdf_header_pattern ''1.2.1 T'' =
     Some \<lparr>group0 = ''1.2.1 T'', groups = [''1.2.1'', ''T''], after = []\<rparr> \<and>
   pdf_loop [(''1.1.1 U'', ''x'')] [] =
     Inr [\<lparr>pdf_id = ''1.1.1'', pdf_section = ''1.1.1'', pdf_title = ''U'', pdf_text = ''x'',
            pdf_source = ''WCAG 2.2 PDF''\<rparr>] \<and>
   pdf_loop ([] @ (''1.2.1 T'', '' \<newline>'') # [(''1.1.1 U'', ''x'')]) [] =
     Inr ([] @ \<lparr>pdf_id = ''1.2.1'', pdf_section = ''1.2.1'', pdf_title = ''T'', pdf_text = [],
            pdf_source = ''WCAG 2.2 PDF''\<rparr> #
          [\<lparr>pdf_id = ''1.1.1'', pdf_section = ''1.1.1'', pdf_title = ''U'', pdf_text = ''x'',
            pdf_source = ''WCAG 2.2 PDF''\<rparr>]) \<and>
   re_match html_header_pattern (clean_html (Some ''Success Criterion 1.2.1 T'')) =
     Some \<lparr>group0 = ''Success Criterion 1.2.1 T'', groups = [''1.2.1'', ''T''], after = []\<rparr> \<and>
   html_loop ([] @ (''Success Criterion 1.2.1 T'', '' \<newline>'') # []) [] =
     Inr ([] @ \<lparr>html_id = ''1.2.1'', html_section = ''1.2.1'', html_title = ''T'',
            html_level = None, html_text = [], html_source = WCAG_URL\<rparr> # [])"
proof -
  have b: "\<forall>c \<in> set '' \<newline>''. isspace c" by (simp add: isspace_def)
  have p1: "clean_pdf (Some ''1.2.1 T'') = Inr ''1.2.1 T''" by code_simp
  have p2: "re_match pdf_header_pattern ''1.2.1 T'' =
     Some \<lparr>group0 = ''1.2.1 T'', groups = [''1.2.1'', ''T''], after = []\<rparr>" by code_simp
  have p3: "pdf_loop [(''1.1.1 U'', ''x'')] [] =
     Inr [\<lparr>pdf_id = ''1.1.1'', pdf_section = ''1.1.1'', pdf_title = ''U'', pdf_text = ''x'',
            pdf_source = ''WCAG 2.2 PDF''\<rparr>]" by code_simp
  have h1: "re_match html_header_pattern (clean_html (Some ''Success Criterion 1.2.1 T'')) =
     Some \<lparr>group0 = ''Success Criterion 1.2.1 T'', groups = [''1.2.1'', ''T''], after = []\<rparr>"
    by code_simp
  note t = empty_body_still_emitted [OF b, of "''1.2.1 T''" "''1.2.1 T''"
      "\<lparr>group0 = ''1.2.1 T'', groups = [''1.2.1'', ''T''], after = []\<rparr>"
      "[]" "[(''1.1.1 U'', ''x'')]"
      "\<lparr>group0 = ''Success Criterion 1.2.1 T'', groups = [''1.2.1'', ''T''], after = []\<rparr>"
      "[]" "[]"]
  from t p1 p2 p3 have c1:
    "pdf_loop ([] @ (''1.2.1 T'', '' \<newline>'') # [(''1.1.1 U'', ''x'')]) [] =
     Inr ([] @ \<lparr>pdf_id = ''1.2.1'', pdf_section = ''1.2.1'', pdf_title = ''T'', pdf_text = [],
            pdf_source = ''WCAG 2.2 PDF''\<rparr> #
          [\<lparr>pdf_id = ''1.1.1'', pdf_section = ''1.1.1'', pdf_title = ''U'', pdf_text = ''x'',
            pdf_source = ''WCAG 2.2 PDF''\<rparr>])"
    by auto
  note t2 = empty_body_still_emitted [OF b, of "''Success Criterion 1.2.1 T''" "[]"
      "\<lparr>group0 = [], groups = [], after = []\<rparr>" "[]" "[]"
      "\<lparr>group0 = ''Success Criterion 1.2.1 T'', groups = [''1.2.1'', ''T''], after = []\<rparr>"
      "[]" "[]"]
  from t2 h1 have c2:
    "html_loop ([] @ (''Success Criterion 1.2.1 T'', '' \<newline>'') # []) [] =
     Inr ([] @ \<lparr>html_id = ''1.2.1'', html_section = ''1.2.1'', html_title = ''T'',
            html_level = None, html_text = [], html_source = WCAG_URL\<rparr> # [])"
    by auto
  have b': "list_all isspace '' \<newline>''" by (simp add: isspace_def)
  from b' p1 p2 p3 c1 h1 c2 show ?thesis by (intro conjI)
qed

section \<open>What the level patterns match\<close>

lemma rmatch_Lit_iff:
  "(gs, rest) \<in> set (rmatch (Lit l) s) \<longleftrightarrow> gs = [] \<and> s = l @ rest"
  by (auto simp: prefix_def)

lemma rmatch_Cat_iff:
  "(gs, rest) \<in> set (rmatch (Cat r1 r2) s) \<longleftrightarrow>
     (\<exists>g1 s1 g2. (g1, s1) \<in> set (rmatch r1 s) \<and> (g2, rest) \<in> set (rmatch r2 s1) \<and>
        gs = g1 @ g2)"
  by force

lemma rmatch_Grp_iff:
  "(gs, rest) \<in> set (rmatch (Grp r) s) \<longleftrightarrow>
     (\<exists>g. (g, rest) \<in> set (rmatch r s) \<and> gs = take (length s - length rest) s # g)"
  by force

lemma take_takeWhile_all:
  assumes "i \<le> length (takeWhile P s)"
  shows "list_all P (take i s)"
proof -
  have "take i s = take i (takeWhile P s @ dropWhile P s)" by simp
  also have "\<dots> = take i (takeWhile P s)" using assms by (simp only: take_append) simp
  finally have "set (take i s) \<subseteq> set (takeWhile P s)" by (simp add: set_take_subset)
  then show ?thesis by (auto simp: list_all_iff dest: set_takeWhileD)
qed

lemma length_takeWhile_append_all:
  "list_all P w \<Longrightarrow> length w \<le> length (takeWhile P (w @ t))"
  by (simp add: list_all_iff takeWhile_append2)

lemma rmatch_Rep_eq:
  "rmatch (Rep k lo hi) s =
     map (\<lambda>i. ([], drop i s))
       (rev [lo ..< Suc (case hi of None \<Rightarrow> length (takeWhile (in_class k) s)
                          | Some h \<Rightarrow> min (length (takeWhile (in_class k) s)) h)])"
  by (simp only: rmatch.simps Let_def)

lemma rmatch_Rep_iff:
  "(gs, rest) \<in> set (rmatch (Rep k lo hi) s) \<longleftrightarrow>
     gs = [] \<and>
     (\<exists>w. s = w @ rest \<and> lo \<le> length w \<and> length w \<le> length (takeWhile (in_class k) s) \<and>
        (case hi of None \<Rightarrow> True | Some h \<Rightarrow> length w \<le> h))"
  (is "?L \<longleftrightarrow> ?R")
proof
  let ?n = "length (takeWhile (in_class k) s)"
  let ?m = "case hi of None \<Rightarrow> ?n | Some h \<Rightarrow> min ?n h"
  assume ?L
  then have "(gs, rest) \<in> (\<lambda>i. ([], drop i s)) ` set (rev [lo ..< Suc ?m])"
    by (simp only: rmatch_Rep_eq set_map)
  then obtain i where i: "gs = []" "rest = drop i s" "lo \<le> i" "i \<le> ?m"
    by auto
  from i(4) have in': "i \<le> ?n" by (cases hi) simp_all
  from i(4) have ih: "case hi of None \<Rightarrow> True | Some h \<Rightarrow> i \<le> h" by (cases hi) simp_all
  have "?n \<le> length s" by (rule length_takeWhile_le)
  with in' have l: "length (take i s) = i" by simp
  have "s = take i s @ rest" using i(2) by simp
  with i(1,3) in' ih l show ?R by metis
next
  let ?n = "length (takeWhile (in_class k) s)"
  let ?m = "case hi of None \<Rightarrow> ?n | Some h \<Rightarrow> min ?n h"
  assume ?R
  then obtain w where w: "gs = []" "s = w @ rest" "lo \<le> length w" "length w \<le> ?n"
    "case hi of None \<Rightarrow> True | Some h \<Rightarrow> length w \<le> h"
    by blast
  from w(2) have r: "rest = drop (length w) s" by simp
  from w(4,5) have "length w \<le> ?m" by (cases hi) simp_all
  with w(3) have "length w \<in> set (rev [lo ..< Suc ?m])"
    by (simp only: set_rev set_upt atLeastLessThan_iff less_Suc_eq_le)
  then have "([], drop (length w) s) \<in> (\<lambda>i. ([], drop i s)) ` set (rev [lo ..< Suc ?m])"
    by (rule imageI)
  then show ?L by (simp only: rmatch_Rep_eq set_map w(1) r [symmetric])
qed

lemma takeWhile_append_stop:
  assumes "list_all P w" and "t \<noteq> []" and "\<not> P (hd t)"
  shows "takeWhile P (w @ t) = w"
proof -
  from assms(2) obtain c cs where t: "t = c # cs" by (cases t) auto
  with assms(3) have "\<not> P c" by simp
  with assms(1) t show ?thesis by (simp add: list_all_iff takeWhile_tail)
qed

lemma in_class_CSpace: "in_class CSpace = isspace"
  by (rule ext) simp

lemma in_class_A: "in_class (CSet ''A'') = (\<lambda>c. c = CHR ''A'')"
  by (rule ext) simp

lemma not_space_A: "\<not> isspace CHR ''A''"
  by (simp add: isspace_def)

lemma marker_parts_unique:
  assumes w: "list_all isspace w" "list_all isspace w'"
    and x: "x \<noteq> []" "list_all (\<lambda>c. c = CHR ''A'') x" "x' \<noteq> []" "list_all (\<lambda>c. c = CHR ''A'') x'"
    and e: "w @ x @ '')'' @ rest = w' @ x' @ '')'' @ rest'"
  shows "w = w' \<and> x = x' \<and> rest = rest'"
proof -
  from x(1,2) have hx: "\<not> isspace (hd (x @ '')'' @ rest))"
    by (cases x) (simp_all add: not_space_A)
  from x(3,4) have hx': "\<not> isspace (hd (x' @ '')'' @ rest'))"
    by (cases x') (simp_all add: not_space_A)
  have "takeWhile isspace (w @ (x @ '')'' @ rest)) = w"
    using w(1) x(1) hx by (intro takeWhile_append_stop) simp_all
  moreover have "takeWhile isspace (w' @ (x' @ '')'' @ rest')) = w'"
    using w(2) x(3) hx' by (intro takeWhile_append_stop) simp_all
  ultimately have ww: "w = w'" using e by simp
  with e have e2: "x @ ('')'' @ rest) = x' @ ('')'' @ rest')" by simp
  have "takeWhile (\<lambda>c. c = CHR ''A'') (x @ ('')'' @ rest)) = x"
    using x(2) by (intro takeWhile_append_stop) simp_all
  moreover have "takeWhile (\<lambda>c. c = CHR ''A'') (x' @ ('')'' @ rest')) = x'"
    using x(4) by (intro takeWhile_append_stop) simp_all
  ultimately have xx: "x = x'" using e2 by simp
  with e2 have "rest = rest'" by simp
  with ww xx show ?thesis by simp
qed

lemma is_marker_unique:
  assumes "is_marker x mk" and "is_marker x' mk'" and "mk @ rest = mk' @ rest'"
  shows "x = x' \<and> mk = mk' \<and> rest = rest'"
proof -
  from assms(1) obtain w where m: "mk = ''(Level'' @ w @ x @ '')''" "list_all isspace w"
    "x \<noteq> []" "list_all (\<lambda>c. c = CHR ''A'') x"
    unfolding is_marker_def by blast
  from assms(2) obtain w' where m': "mk' = ''(Level'' @ w' @ x' @ '')''" "list_all isspace w'"
    "x' \<noteq> []" "list_all (\<lambda>c. c = CHR ''A'') x'"
    unfolding is_marker_def by blast
  from assms(3) m(1) m'(1) have "w @ x @ '')'' @ rest = w' @ x' @ '')'' @ rest'"
    by simp
  with m(2-4) m'(2-4) have "w = w' \<and> x = x' \<and> rest = rest'"
    by (intro marker_parts_unique)
  with m(1) m'(1) show ?thesis by simp
qed

text \<open>The matches of the two level patterns are the markers.\<close>

lemma rmatch_level_text_iff:
  "(gs, rest) \<in> set (rmatch level_text_pattern s) \<longleftrightarrow>
     gs = [] \<and> (\<exists>x mk. is_marker x mk \<and> s = mk @ rest)"
  (is "?L \<longleftrightarrow> ?R")
proof
  assume ?L
  then obtain s1 s2 s3 w x where
    "s = ''(Level'' @ s1" "s1 = w @ s2" "1 \<le> length w"
    "length w \<le> length (takeWhile (in_class CSpace) s1)"
    "s2 = x @ s3" "1 \<le> length x" "length x \<le> length (takeWhile (in_class (CSet ''A'')) s2)"
    "length x \<le> 3" "s3 = '')'' @ rest" and g: "gs = []"
    unfolding level_text_pattern_def rmatch_Cat_iff rmatch_Lit_iff rmatch_Rep_iff
    by auto
  note p = this
  from p(2,4) have "list_all isspace w"
    using take_takeWhile_all [of "length w" "in_class CSpace" s1]
    by (simp add: in_class_CSpace)
  moreover from p(5,7) have "list_all (\<lambda>c. c = CHR ''A'') x"
    using take_takeWhile_all [of "length x" "in_class (CSet ''A'')" s2]
    by (simp add: in_class_A)
  moreover from p(3,6) have "w \<noteq> []" "x \<noteq> []" by auto
  ultimately have "is_marker x (''(Level'' @ w @ x @ '')'')"
    using p(8) unfolding is_marker_def by blast
  moreover have "s = (''(Level'' @ w @ x @ '')'') @ rest"
    using p(1,2,5,9) by simp
  ultimately show ?R using g by blast
next
  assume ?R
  then obtain x mk w where g: "gs = []" and s: "s = mk @ rest"
    and m: "mk = ''(Level'' @ w @ x @ '')''" "w \<noteq> []" "list_all isspace w"
    "x \<noteq> []" "length x \<le> 3" "list_all (\<lambda>c. c = CHR ''A'') x"
    unfolding is_marker_def by blast
  let ?s3 = "'')'' @ rest"
  let ?s2 = "x @ ?s3"
  let ?s1 = "w @ ?s2"
  have s': "s = ''(Level'' @ ?s1" using s m(1) by simp
  have a: "([], ?s1) \<in> set (rmatch (Lit ''(Level'') s)"
    unfolding rmatch_Lit_iff using s' by simp
  have "length w \<le> length (takeWhile (in_class CSpace) ?s1)"
    using m(3) length_takeWhile_append_all [of "in_class CSpace" w ?s2]
    by (simp add: in_class_CSpace)
  moreover have "1 \<le> length w" using m(2) by (cases w) simp_all
  ultimately have b: "([], ?s2) \<in> set (rmatch (Rep CSpace 1 None) ?s1)"
    unfolding rmatch_Rep_iff by auto
  have "length x \<le> length (takeWhile (in_class (CSet ''A'')) ?s2)"
    using m(6) length_takeWhile_append_all [of "in_class (CSet ''A'')" x ?s3]
    by (simp add: in_class_A)
  moreover have "1 \<le> length x" using m(4) by (cases x) simp_all
  ultimately have c: "([], ?s3) \<in> set (rmatch (Rep (CSet ''A'') 1 (Some 3)) ?s2)"
    unfolding rmatch_Rep_iff using m(5) by auto
  have d: "([], rest) \<in> set (rmatch (Lit '')'') ?s3)"
    unfolding rmatch_Lit_iff by simp
  from c d have "([] @ [], rest) \<in>
      set (rmatch (Cat (Rep (CSet ''A'') 1 (Some 3)) (Lit '')'')) ?s2)"
    unfolding rmatch_Cat_iff by blast
  with b have "([] @ [] @ [], rest) \<in>
      set (rmatch (Cat (Rep CSpace 1 None) (Cat (Rep (CSet ''A'') 1 (Some 3)) (Lit '')''))) ?s1)"
    unfolding rmatch_Cat_iff [of _ _ "Rep CSpace 1 None"] by blast
  with a have "([] @ [] @ [] @ [], rest) \<in> set (rmatch level_text_pattern s)"
    unfolding level_text_pattern_def rmatch_Cat_iff [of _ _ "Lit ''(Level''"] by blast
  with g show ?L by simp
qed

lemma rmatch_level_iff:
  "(gs, rest) \<in> set (rmatch level_pattern s) \<longleftrightarrow>
     (\<exists>x mk. is_marker x mk \<and> s = mk @ rest \<and> gs = [x])"
  (is "?L \<longleftrightarrow> ?R")
proof
  assume ?L
  then have "(gs, rest) \<in> set (rmatch (Cat (Lit ''(Level'') (Cat (Rep CSpace 1 None)
       (Cat (Grp (Rep (CSet ''A'') 1 (Some 3))) (Lit '')'')))) s)"
    unfolding level_pattern_def .
  from this [THEN rmatch_Cat_iff [THEN iffD1]] obtain g1 s1 g2 where
    a: "(g1, s1) \<in> set (rmatch (Lit ''(Level'') s)"
      "(g2, rest) \<in> set (rmatch (Cat (Rep CSpace 1 None)
         (Cat (Grp (Rep (CSet ''A'') 1 (Some 3))) (Lit '')''))) s1)" "gs = g1 @ g2"
    by blast
  from a(2) [THEN rmatch_Cat_iff [THEN iffD1]] obtain g3 s2 g4 where
    b: "(g3, s2) \<in> set (rmatch (Rep CSpace 1 None) s1)"
      "(g4, rest) \<in> set (rmatch (Cat (Grp (Rep (CSet ''A'') 1 (Some 3))) (Lit '')'')) s2)"
      "g2 = g3 @ g4"
    by blast
  from b(2) [THEN rmatch_Cat_iff [THEN iffD1]] obtain g5 s3 g6 where
    c: "(g5, s3) \<in> set (rmatch (Grp (Rep (CSet ''A'') 1 (Some 3))) s2)"
      "(g6, rest) \<in> set (rmatch (Lit '')'') s3)" "g4 = g5 @ g6"
    by blast
  from c(1) [THEN rmatch_Grp_iff [THEN iffD1]] obtain g7 where
    d: "(g7, s3) \<in> set (rmatch (Rep (CSet ''A'') 1 (Some 3)) s2)"
      "g5 = take (length s2 - length s3) s2 # g7"
    by blast
  from a(1) [THEN rmatch_Lit_iff [THEN iffD1]] have a': "g1 = []" "s = ''(Level'' @ s1"
    by simp_all
  from c(2) [THEN rmatch_Lit_iff [THEN iffD1]] have c': "g6 = []" "s3 = '')'' @ rest"
    by simp_all
  from b(1) [THEN rmatch_Rep_iff [THEN iffD1]] obtain w where
    b': "g3 = []" "s1 = w @ s2" "1 \<le> length w"
      "length w \<le> length (takeWhile (in_class CSpace) s1)"
    by auto
  from d(1) [THEN rmatch_Rep_iff [THEN iffD1]] obtain x where
    d': "g7 = []" "s2 = x @ s3" "1 \<le> length x"
      "length x \<le> length (takeWhile (in_class (CSet ''A'')) s2)" "length x \<le> 3"
    by auto
  have g: "gs = [take (length s2 - length s3) s2]"
    using a(3) b(3) c(3) d(2) a'(1) b'(1) c'(1) d'(1) by simp
  note a'(2) b'(2) b'(3) b'(4) d'(2) d'(3) d'(4) d'(5) c'(2)
  note p = this
  from p(2,4) have "list_all isspace w"
    using take_takeWhile_all [of "length w" "in_class CSpace" s1]
    by (simp add: in_class_CSpace)
  moreover from p(5,7) have "list_all (\<lambda>c. c = CHR ''A'') x"
    using take_takeWhile_all [of "length x" "in_class (CSet ''A'')" s2]
    by (simp add: in_class_A)
  moreover from p(3,6) have "w \<noteq> []" "x \<noteq> []" by auto
  ultimately have "is_marker x (''(Level'' @ w @ x @ '')'')"
    using p(8) unfolding is_marker_def by blast
  moreover have "s = (''(Level'' @ w @ x @ '')'') @ rest"
    using p(1,2,5,9) by simp
  moreover have "gs = [x]" using g p(5) by simp
  ultimately show ?R by blast
next
  assume ?R
  then obtain x mk w where g: "gs = [x]" and s: "s = mk @ rest"
    and m: "mk = ''(Level'' @ w @ x @ '')''" "w \<noteq> []" "list_all isspace w"
    "x \<noteq> []" "length x \<le> 3" "list_all (\<lambda>c. c = CHR ''A'') x"
    unfolding is_marker_def by blast
  let ?s3 = "'')'' @ rest"
  let ?s2 = "x @ ?s3"
  let ?s1 = "w @ ?s2"
  have s': "s = ''(Level'' @ ?s1" using s m(1) by simp
  have a: "([], ?s1) \<in> set (rmatch (Lit ''(Level'') s)"
    unfolding rmatch_Lit_iff using s' by simp
  have "length w \<le> length (takeWhile (in_class CSpace) ?s1)"
    using m(3) length_takeWhile_append_all [of "in_class CSpace" w ?s2]
    by (simp add: in_class_CSpace)
  moreover have "1 \<le> length w" using m(2) by (cases w) simp_all
  ultimately have b: "([], ?s2) \<in> set (rmatch (Rep CSpace 1 None) ?s1)"
    unfolding rmatch_Rep_iff by auto
  have "length x \<le> length (takeWhile (in_class (CSet ''A'')) ?s2)"
    using m(6) length_takeWhile_append_all [of "in_class (CSet ''A'')" x ?s3]
    by (simp add: in_class_A)
  moreover have "1 \<le> length x" using m(4) by (cases x) simp_all
  ultimately have "([], ?s3) \<in> set (rmatch (Rep (CSet ''A'') 1 (Some 3)) ?s2)"
    unfolding rmatch_Rep_iff using m(5) by auto
  moreover have "take (length ?s2 - length ?s3) ?s2 = x" by simp
  ultimately have c: "([x], ?s3) \<in> set (rmatch (Grp (Rep (CSet ''A'') 1 (Some 3))) ?s2)"
    unfolding rmatch_Grp_iff by (intro exI [of _ "[]"] conjI) simp_all
  have d: "([], rest) \<in> set (rmatch (Lit '')'') ?s3)"
    unfolding rmatch_Lit_iff by simp
  from c d have "([x] @ [], rest) \<in>
      set (rmatch (Cat (Grp (Rep (CSet ''A'') 1 (Some 3))) (Lit '')'')) ?s2)"
    unfolding rmatch_Cat_iff by blast
  with b have "([] @ [x] @ [], rest) \<in>
      set (rmatch (Cat (Rep CSpace 1 None)
        (Cat (Grp (Rep (CSet ''A'') 1 (Some 3))) (Lit '')''))) ?s1)"
    unfolding rmatch_Cat_iff [of _ _ "Rep CSpace 1 None"] by blast
  with a have "([] @ [] @ [x] @ [], rest) \<in> set (rmatch level_pattern s)"
    unfolding level_pattern_def rmatch_Cat_iff [of _ _ "Lit ''(Level''"] by blast
  with g show ?L by simp
qed

lemma match_at_head: "match_at r s = Some m \<Longrightarrow> (groups m, after m) \<in> set (rmatch r s)"
  by (auto simp: match_at_def split: list.splits)

lemma match_at_NoneI: "set (rmatch r s) = {} \<Longrightarrow> match_at r s = None"
  by (simp add: match_at_def)

lemma match_at_SomeI:
  assumes "x \<in> set (rmatch r s)"
  shows "\<exists>m. match_at r s = Some m"
  using assms by (cases "rmatch r s") (auto simp: match_at_def)

lemma match_at_level:
  assumes "is_marker x mk"
  shows "match_at level_pattern (mk @ post) = Some \<lparr>group0 = mk, groups = [x], after = post\<rparr>"
proof -
  have "([x], post) \<in> set (rmatch level_pattern (mk @ post))"
    unfolding rmatch_level_iff using assms by blast
  then obtain m where m: "match_at level_pattern (mk @ post) = Some m"
    using match_at_SomeI by blast
  then have "(groups m, after m) \<in> set (rmatch level_pattern (mk @ post))"
    by (rule match_at_head)
  then obtain x' mk' where m': "is_marker x' mk'" "mk @ post = mk' @ after m" "groups m = [x']"
    unfolding rmatch_level_iff by blast
  from is_marker_unique [OF assms m'(1,2)] have u: "x = x' \<and> mk = mk' \<and> post = after m" .
  then have am: "after m = post" by simp
  from m have "mk @ post = group0 m @ after m" by (rule match_at_text)
  then have g0: "group0 m = mk" unfolding am by simp
  from u m'(3) have gs: "groups m = [x]" by simp
  have "m = \<lparr>group0 = mk, groups = [x], after = post\<rparr>"
    using g0 gs am by (cases m) simp
  with m show ?thesis by (simp only:)
qed

lemma match_at_level_text:
  assumes "is_marker x mk"
  shows "match_at level_text_pattern (mk @ post) = Some \<lparr>group0 = mk, groups = [], after = post\<rparr>"
proof -
  have "([], post) \<in> set (rmatch level_text_pattern (mk @ post))"
    unfolding rmatch_level_text_iff using assms by blast
  then obtain m where m: "match_at level_text_pattern (mk @ post) = Some m"
    using match_at_SomeI by blast
  then have "(groups m, after m) \<in> set (rmatch level_text_pattern (mk @ post))"
    by (rule match_at_head)
  then obtain x' mk' where m': "is_marker x' mk'" "mk @ post = mk' @ after m" "groups m = []"
    unfolding rmatch_level_text_iff by blast
  from is_marker_unique [OF assms m'(1,2)] have u: "x = x' \<and> mk = mk' \<and> post = after m" .
  then have am: "after m = post" by simp
  from m have "mk @ post = group0 m @ after m" by (rule match_at_text)
  then have g0: "group0 m = mk" unfolding am by simp
  from u m'(3) have gs: "groups m = []" by simp
  have "m = \<lparr>group0 = mk, groups = [], after = post\<rparr>"
    using g0 gs am by (cases m) simp
  with m show ?thesis by (simp only:)
qed

lemma match_at_level_None: "\<not> marker_at s \<Longrightarrow> match_at level_pattern s = None"
proof (rule match_at_NoneI, rule ccontr)
  assume n: "\<not> marker_at s" and "set (rmatch level_pattern s) \<noteq> {}"
  then obtain gs rest where "(gs, rest) \<in> set (rmatch level_pattern s)"
    by (cases "rmatch level_pattern s") auto
  then have "marker_at s" unfolding rmatch_level_iff marker_at_def by blast
  with n show False by simp
qed

lemma match_at_level_text_None: "\<not> marker_at s \<Longrightarrow> match_at level_text_pattern s = None"
proof (rule match_at_NoneI, rule ccontr)
  assume n: "\<not> marker_at s" and "set (rmatch level_text_pattern s) \<noteq> {}"
  then obtain gs rest where "(gs, rest) \<in> set (rmatch level_text_pattern s)"
    by (cases "rmatch level_text_pattern s") auto
  then have "marker_at s" unfolding rmatch_level_text_iff marker_at_def by blast
  with n show False by simp
qed

lemma match_at_level_text_Some:
  assumes "match_at level_text_pattern s = Some m"
  shows "\<exists>x. is_marker x (group0 m) \<and> s = group0 m @ after m"
proof -
  from assms have "(groups m, after m) \<in> set (rmatch level_text_pattern s)"
    by (rule match_at_head)
  then obtain x mk where m: "is_marker x mk" "s = mk @ after m"
    unfolding rmatch_level_text_iff by blast
  from assms have "s = group0 m @ after m" by (rule match_at_text)
  with m show ?thesis by auto
qed

section \<open>Taking the markers out of the body\<close>

lemma is_marker_Cons: "is_marker x mk \<Longrightarrow> \<exists>mk'. mk = CHR ''('' # mk'"
  by (auto simp: is_marker_def)

lemma marker_at_Cons: "marker_at s \<Longrightarrow> \<exists>s'. s = CHR ''('' # s'"
  by (auto simp: marker_at_def dest!: is_marker_Cons)

lemma not_marker_at_Nil: "\<not> marker_at []"
  by (auto dest: marker_at_Cons)

lemma marker_at_append: "marker_at s \<Longrightarrow> marker_at (s @ t)"
  by (auto simp: marker_at_def) (metis append.assoc)

lemma has_marker_factor: "has_marker t \<Longrightarrow> has_marker (a @ t @ b)"
proof -
  assume "has_marker t"
  then obtain pre rest where "t = pre @ rest" "marker_at rest"
    unfolding has_marker_def by blast
  then have "a @ t @ b = (a @ pre) @ (rest @ b)" "marker_at (rest @ b)"
    by (simp_all add: marker_at_append)
  then show ?thesis unfolding has_marker_def by blast
qed

lemma has_marker_Cons:
  "has_marker (c # s) \<longleftrightarrow> marker_at (c # s) \<or> has_marker s"
proof
  assume "has_marker (c # s)"
  then obtain pre rest where p: "c # s = pre @ rest" "marker_at rest"
    unfolding has_marker_def by blast
  show "marker_at (c # s) \<or> has_marker s"
  proof (cases pre)
    case Nil
    with p show ?thesis by simp
  next
    case (Cons d pre')
    with p have "s = pre' @ rest" by simp
    with p(2) show ?thesis unfolding has_marker_def by blast
  qed
next
  assume "marker_at (c # s) \<or> has_marker s"
  then show "has_marker (c # s)"
  proof
    assume "marker_at (c # s)"
    then have "c # s = [] @ (c # s) \<and> marker_at (c # s)" by simp
    then show ?thesis unfolding has_marker_def by blast
  next
    assume "has_marker s"
    then have "has_marker ([c] @ s @ [])" by (rule has_marker_factor)
    then show ?thesis by simp
  qed
qed

lemma not_has_marker_Nil: "\<not> has_marker []"
  by (simp add: has_marker_def not_marker_at_Nil)

lemma spliced_factor: "spliced t \<Longrightarrow> spliced (a @ t @ b)"
proof -
  assume "spliced t"
  then obtain pre p mk x post where "t = pre @ p @ mk @ post" "marker_start p" "is_marker x mk"
    unfolding spliced_def by blast
  then have "a @ t @ b = (a @ pre) @ p @ mk @ (post @ b)" "marker_start p" "is_marker x mk"
    by simp_all
  then show ?thesis unfolding spliced_def by blast
qed

lemma match_at_level_text_iff:
  "match_at level_text_pattern s = None \<longleftrightarrow> \<not> marker_at s"
proof
  assume n: "match_at level_text_pattern s = None"
  show "\<not> marker_at s"
  proof
    assume "marker_at s"
    then obtain x mk post where "is_marker x mk" "s = mk @ post"
      unfolding marker_at_def by blast
    with match_at_level_text [of x mk post] n show False by simp
  qed
qed (rule match_at_level_text_None)

lemma re_sub_level_Cons_None:
  "\<not> marker_at (c # cs) \<Longrightarrow>
     re_sub level_text_pattern [] (c # cs) = c # re_sub level_text_pattern [] cs"
  by (simp add: re_sub.simps(2) match_at_level_text_None)

lemma re_sub_level_marker:
  assumes "is_marker x mk"
  shows "re_sub level_text_pattern [] (mk @ post) = re_sub level_text_pattern [] post"
proof -
  from assms obtain mk' where mk: "mk = CHR ''('' # mk'" using is_marker_Cons by blast
  have "match_at level_text_pattern (CHR ''('' # mk' @ post) =
      Some \<lparr>group0 = mk, groups = [], after = post\<rparr>"
    using match_at_level_text [OF assms, of post] mk by simp
  then show ?thesis using mk by (simp add: re_sub.simps(2))
qed

lemma re_sub_level_first:
  "re_sub level_text_pattern [] s = s \<or>
   (\<exists>g mk x rest. s = g @ mk @ rest \<and> is_marker x mk \<and>
      re_sub level_text_pattern [] s = g @ re_sub level_text_pattern [] rest)"
proof (induction s)
  case Nil
  then show ?case by simp
next
  case (Cons c cs)
  show ?case
  proof (cases "marker_at (c # cs)")
    case True
    then obtain x mk post where m: "is_marker x mk" "c # cs = mk @ post"
      unfolding marker_at_def by blast
    then have "re_sub level_text_pattern [] (c # cs) = [] @ re_sub level_text_pattern [] post"
      by (simp add: re_sub_level_marker)
    moreover have "c # cs = [] @ mk @ post" using m(2) by simp
    ultimately show ?thesis using m(1) by blast
  next
    case False
    then have r: "re_sub level_text_pattern [] (c # cs) = c # re_sub level_text_pattern [] cs"
      by (rule re_sub_level_Cons_None)
    from Cons.IH show ?thesis
    proof
      assume "re_sub level_text_pattern [] cs = cs"
      with r show ?thesis by simp
    next
      assume "\<exists>g mk x rest. cs = g @ mk @ rest \<and> is_marker x mk \<and>
        re_sub level_text_pattern [] cs = g @ re_sub level_text_pattern [] rest"
      then obtain g mk x rest where g: "cs = g @ mk @ rest" "is_marker x mk"
        "re_sub level_text_pattern [] cs = g @ re_sub level_text_pattern [] rest"
        by blast
      then have "c # cs = (c # g) @ mk @ rest"
        "re_sub level_text_pattern [] (c # cs) = (c # g) @ re_sub level_text_pattern [] rest"
        using r by simp_all
      with g(2) show ?thesis by blast
    qed
  qed
qed

lemma re_sub_level_no_marker:
  "\<not> spliced s \<Longrightarrow> \<not> has_marker (re_sub level_text_pattern [] s)"
proof (induction s rule: length_induct)
  case (1 s)
  show ?case
  proof (cases s)
    case Nil
    then show ?thesis by (simp add: not_has_marker_Nil)
  next
    case (Cons c cs)
    show ?thesis
    proof (cases "marker_at s")
      case True
      then obtain x mk post where m: "is_marker x mk" "s = mk @ post"
        unfolding marker_at_def by blast
      from m(1) have "mk \<noteq> []" using is_marker_Cons by blast
      with m(2) have "length post < length s" by simp
      moreover have "\<not> spliced post"
        using 1(2) m(2) spliced_factor [of post mk "[]"] by auto
      ultimately have "\<not> has_marker (re_sub level_text_pattern [] post)"
        using 1(1) by blast
      with m show ?thesis by (simp add: re_sub_level_marker)
    next
      case False
      with Cons have r: "re_sub level_text_pattern [] s = c # re_sub level_text_pattern [] cs"
        by (simp add: re_sub_level_Cons_None)
      have "\<not> spliced cs" using 1(2) Cons spliced_factor [of cs "[c]" "[]"] by auto
      with 1(1) Cons have ih: "\<not> has_marker (re_sub level_text_pattern [] cs)" by simp
      have "\<not> marker_at (c # re_sub level_text_pattern [] cs)"
      proof
        assume "marker_at (c # re_sub level_text_pattern [] cs)"
        then obtain x' M post' where M: "is_marker x' M"
          "c # re_sub level_text_pattern [] cs = M @ post'"
          unfolding marker_at_def by blast
        from re_sub_level_first [of cs] show False
        proof
          assume "re_sub level_text_pattern [] cs = cs"
          with M Cons have "marker_at s" unfolding marker_at_def by auto
          with False show False by simp
        next
          assume "\<exists>g mk x rest. cs = g @ mk @ rest \<and> is_marker x mk \<and>
            re_sub level_text_pattern [] cs = g @ re_sub level_text_pattern [] rest"
          then obtain g mk x rest where g: "cs = g @ mk @ rest" "is_marker x mk"
            "re_sub level_text_pattern [] cs = g @ re_sub level_text_pattern [] rest"
            by blast
          from M(2) g(3) have "(c # g) @ re_sub level_text_pattern [] rest = M @ post'"
            by simp
          then obtain u where
            u: "c # g = M @ u \<and> u @ re_sub level_text_pattern [] rest = post' \<or>
                (c # g) @ u = M \<and> re_sub level_text_pattern [] rest = u @ post'"
            unfolding append_eq_append_conv2 by blast
          then show False
          proof
            assume "c # g = M @ u \<and> u @ re_sub level_text_pattern [] rest = post'"
            then have "s = M @ (u @ mk @ rest)" using Cons g(1) by simp
            with M(1) have "marker_at s" unfolding marker_at_def by blast
            with False show False by simp
          next
            assume a: "(c # g) @ u = M \<and> re_sub level_text_pattern [] rest = u @ post'"
            show False
            proof (cases "u = []")
              case True
              with a have "s = M @ (mk @ rest)" using Cons g(1) by simp
              with M(1) have "marker_at s" unfolding marker_at_def by blast
              with False show False by simp
            next
              case u: False
              with a M(1) have "marker_start (c # g)"
                unfolding marker_start_def by blast
              moreover have "s = [] @ (c # g) @ mk @ rest" using Cons g(1) by simp
              ultimately have "spliced s" using g(2) unfolding spliced_def by blast
              with 1(2) show False by simp
            qed
          qed
        qed
      qed
      with ih r show ?thesis by (simp add: has_marker_Cons)
    qed
  qed
qed

lemma isspace_space: "isspace CHR '' ''"
  by (simp add: isspace_def)

lemma re_sub_ws_peel:
  assumes "\<not> isspace d" and "re_sub ws_pattern '' '' s = d # u"
  shows "\<exists>s'. s = d # s' \<and> re_sub ws_pattern '' '' s' = u"
proof (cases s)
  case Nil
  with assms(2) show ?thesis by simp
next
  case (Cons c cs)
  show ?thesis
  proof (cases "isspace c")
    case True
    with assms(2) Cons have "d = CHR '' ''" by (simp add: re_sub_ws_Cons)
    with assms(1) isspace_space show ?thesis by simp
  next
    case False
    with assms(2) Cons show ?thesis by (simp add: re_sub_ws_Cons)
  qed
qed

lemma re_sub_ws_peel_list:
  "list_all (\<lambda>c. \<not> isspace c) v \<Longrightarrow> re_sub ws_pattern '' '' s = v @ u \<Longrightarrow>
     \<exists>s'. s = v @ s' \<and> re_sub ws_pattern '' '' s' = u"
proof (induction v arbitrary: s)
  case Nil
  then show ?case by simp
next
  case (Cons d v)
  from Cons.prems have "\<not> isspace d" "re_sub ws_pattern '' '' s = d # (v @ u)" by simp_all
  then obtain s1 where s1: "s = d # s1" "re_sub ws_pattern '' '' s1 = v @ u"
    using re_sub_ws_peel by blast
  from Cons.prems(1) have "list_all (\<lambda>c. \<not> isspace c) v" by simp
  with Cons.IH s1(2) obtain s' where "s1 = v @ s'" "re_sub ws_pattern '' '' s' = u" by blast
  with s1(1) show ?case by simp
qed

lemma re_sub_ws_start:
  assumes "d = [] \<or> \<not> isspace (hd d)"
  shows "re_sub ws_pattern '' '' d = [] \<or> \<not> isspace (hd (re_sub ws_pattern '' '' d))"
  using assms by (cases d) (auto simp: re_sub_ws_Cons)

lemma re_sub_ws_peel_space:
  assumes "w \<noteq> []" and "list_all isspace w" and "re_sub ws_pattern '' '' s = w @ u"
  shows "\<exists>w' s'. s = w' @ s' \<and> w' \<noteq> [] \<and> list_all isspace w' \<and>
           re_sub ws_pattern '' '' s' = u"
proof (cases s)
  case Nil
  with assms(1,3) show ?thesis by simp
next
  case (Cons c cs)
  from assms(1) obtain w1 wt where w: "w = w1 # wt" by (cases w) auto
  with assms(2) have w1: "isspace w1" and wt: "list_all isspace wt" by simp_all
  have c: "isspace c"
  proof (rule ccontr)
    assume "\<not> isspace c"
    with assms(3) Cons w have "w1 = c" by (simp add: re_sub_ws_Cons)
    with w1 \<open>\<not> isspace c\<close> show False by simp
  qed
  let ?d = "dropWhile isspace cs"
  have "re_sub ws_pattern '' '' (c # cs) = CHR '' '' # re_sub ws_pattern '' '' ?d"
    using c by (simp add: re_sub_ws_Cons)
  moreover from assms(3) Cons w have "re_sub ws_pattern '' '' (c # cs) = w1 # (wt @ u)"
    by simp
  ultimately have "CHR '' '' # re_sub ws_pattern '' '' ?d = w1 # (wt @ u)"
    by (rule trans [OF sym])
  then have e: "re_sub ws_pattern '' '' ?d = wt @ u"
    by (rule list.inject [THEN iffD1, THEN conjunct2])
  have "wt = []"
  proof (rule ccontr)
    assume n: "wt \<noteq> []"
    with wt have "isspace (hd wt)" by (cases wt) simp_all
    with n e have "re_sub ws_pattern '' '' ?d \<noteq> []"
      "isspace (hd (re_sub ws_pattern '' '' ?d))" by simp_all
    moreover have "?d = [] \<or> \<not> isspace (hd ?d)" by (metis hd_dropWhile)
    ultimately show False using re_sub_ws_start by blast
  qed
  with e have u: "re_sub ws_pattern '' '' ?d = u" by simp
  have "s = (c # takeWhile isspace cs) @ ?d" using Cons by simp
  moreover have "list_all isspace (c # takeWhile isspace cs)"
    using c by (auto simp: list_all_iff dest: set_takeWhileD)
  ultimately show ?thesis using u by blast
qed

lemma is_markerI:
  assumes "w \<noteq> []" "list_all isspace w" "x \<noteq> []" "length x \<le> 3"
    "list_all (\<lambda>c. c = CHR ''A'') x"
  shows "is_marker x (''(Level'' @ w @ x @ '')'')"
  unfolding is_marker_def using assms by (intro exI [of _ w]) simp

lemma not_space_marker_chars:
  "list_all (\<lambda>c. \<not> isspace c) ''(Level''" "list_all (\<lambda>c. \<not> isspace c) '')''"
  by (simp_all add: isspace_def)

lemma all_A_not_space:
  "list_all (\<lambda>c. c = CHR ''A'') x \<Longrightarrow> list_all (\<lambda>c. \<not> isspace c) x"
  by (induction x) (simp_all add: not_space_A)

lemma marker_at_re_sub_ws:
  assumes "marker_at (re_sub ws_pattern '' '' t)"
  shows "marker_at t"
proof -
  from assms obtain x mk post where
    mk: "is_marker x mk" "re_sub ws_pattern '' '' t = mk @ post"
    unfolding marker_at_def by blast
  from mk(1) obtain w where mk': "mk = ''(Level'' @ w @ x @ '')''"
    and m: "w \<noteq> []" "list_all isspace w" "x \<noteq> []" "length x \<le> 3"
      "list_all (\<lambda>c. c = CHR ''A'') x"
    unfolding is_marker_def by blast
  from mk(2) mk' have
    e: "re_sub ws_pattern '' '' t = ''(Level'' @ (w @ (x @ '')'') @ post)"
    by simp
  from re_sub_ws_peel_list [OF not_space_marker_chars(1) e] obtain t1 where
    t1: "t = ''(Level'' @ t1" "re_sub ws_pattern '' '' t1 = w @ (x @ '')'') @ post"
    by blast
  from re_sub_ws_peel_space [OF m(1,2) t1(2)] obtain w' t2 where
    t2: "t1 = w' @ t2" "w' \<noteq> []" "list_all isspace w'"
      "re_sub ws_pattern '' '' t2 = (x @ '')'') @ post"
    by blast
  have "list_all (\<lambda>c. \<not> isspace c) (x @ '')'')"
    using all_A_not_space [OF m(5)] not_space_marker_chars(2) by simp
  from re_sub_ws_peel_list [OF this t2(4)] obtain t3 where
    t3: "t2 = (x @ '')'') @ t3" by blast
  have "is_marker x (''(Level'' @ w' @ x @ '')'')"
    using t2(2,3) m(3-5) by (rule is_markerI)
  moreover have "t = (''(Level'' @ w' @ x @ '')'') @ t3"
    using t1(1) t2(1) t3 by simp
  ultimately show ?thesis unfolding marker_at_def by blast
qed

lemma has_marker_suffix: "has_marker t \<Longrightarrow> has_marker (a @ t)"
  using has_marker_factor [of t a "[]"] by simp

lemma has_marker_re_sub_ws:
  "has_marker (re_sub ws_pattern '' '' t) \<Longrightarrow> has_marker t"
proof (induction t rule: length_induct)
  case (1 t)
  show ?case
  proof (cases t)
    case Nil
    with 1(2) show ?thesis by (simp add: not_has_marker_Nil)
  next
    case (Cons c cs)
    show ?thesis
    proof (cases "isspace c")
      case True
      let ?d = "dropWhile isspace cs"
      from True Cons 1(2) have
        "has_marker (CHR '' '' # re_sub ws_pattern '' '' ?d)"
        by (simp add: re_sub_ws_Cons)
      moreover have "\<not> marker_at (CHR '' '' # re_sub ws_pattern '' '' ?d)"
        by (auto dest: marker_at_Cons)
      ultimately have "has_marker (re_sub ws_pattern '' '' ?d)"
        by (simp add: has_marker_Cons)
      moreover have "length ?d < length t" using Cons
        by (simp add: length_dropWhile_le less_Suc_eq_le)
      ultimately have "has_marker ?d" using 1(1) by blast
      then have "has_marker ((c # takeWhile isspace cs) @ ?d)" by (rule has_marker_suffix)
      with Cons show ?thesis by simp
    next
      case False
      with Cons 1(2) have "has_marker (c # re_sub ws_pattern '' '' cs)"
        by (simp add: re_sub_ws_Cons)
      then have "marker_at (c # re_sub ws_pattern '' '' cs) \<or>
          has_marker (re_sub ws_pattern '' '' cs)"
        by (simp add: has_marker_Cons)
      then show ?thesis
      proof
        assume "marker_at (c # re_sub ws_pattern '' '' cs)"
        with False Cons have "marker_at (re_sub ws_pattern '' '' t)"
          by (simp add: re_sub_ws_Cons)
        then have "marker_at t" by (rule marker_at_re_sub_ws)
        then have "t = [] @ t \<and> marker_at t" by simp
        then show ?thesis unfolding has_marker_def by blast
      next
        assume "has_marker (re_sub ws_pattern '' '' cs)"
        with 1(1) Cons have "has_marker cs" by simp
        with Cons show ?thesis by (simp add: has_marker_Cons)
      qed
    qed
  qed
qed

lemma has_marker_strip: "has_marker (strip u) \<Longrightarrow> has_marker u"
proof -
  assume h: "has_marker (strip u)"
  obtain a b where "u = a @ strip u @ b" using strip_parts by blast
  with has_marker_factor [OF h, of a b] show ?thesis by simp
qed

lemma spliced_strip: "spliced (strip u) \<Longrightarrow> spliced u"
proof -
  assume h: "spliced (strip u)"
  obtain a b where "u = a @ strip u @ b" using strip_parts by blast
  with spliced_factor [OF h, of a b] show ?thesis by simp
qed

lemma has_marker_clean_html: "has_marker (clean_html (Some t)) \<Longrightarrow> has_marker t"
proof -
  assume "has_marker (clean_html (Some t))"
  then have "has_marker (strip (re_sub ws_pattern '' '' t))"
    by (simp add: clean_html_def py_or_empty_def)
  then have "has_marker (re_sub ws_pattern '' '' t)" by (rule has_marker_strip)
  then show ?thesis by (rule has_marker_re_sub_ws)
qed

lemma html_text_no_marker:
  assumes "\<not> spliced b"
  shows "\<not> has_marker (clean_html (Some (re_sub level_text_pattern [] (strip b))))"
proof
  assume "has_marker (clean_html (Some (re_sub level_text_pattern [] (strip b))))"
  then have "has_marker (re_sub level_text_pattern [] (strip b))"
    by (rule has_marker_clean_html)
  moreover from assms have "\<not> spliced (strip b)" using spliced_strip by blast
  ultimately show False using re_sub_level_no_marker by blast
qed

section \<open>The level of a chunk\<close>

lemma match_at_level_None_iff: "match_at level_pattern s = None \<longleftrightarrow> \<not> marker_at s"
proof
  assume n: "match_at level_pattern s = None"
  show "\<not> marker_at s"
  proof
    assume "marker_at s"
    then obtain x mk post where "is_marker x mk" "s = mk @ post"
      unfolding marker_at_def by blast
    with match_at_level [of x mk post] n show False by simp
  qed
qed (rule match_at_level_None)

lemma re_search_level_first:
  assumes "is_marker x mk"
  shows "\<forall>pre1 pre2. pre = pre1 @ pre2 \<and> pre2 \<noteq> [] \<longrightarrow> \<not> marker_at (pre2 @ mk @ post) \<Longrightarrow>
     re_search level_pattern (pre @ mk @ post) =
       Some \<lparr>group0 = mk, groups = [x], after = post\<rparr>"
proof (induction pre)
  case Nil
  from assms obtain mk' where mk: "mk = CHR ''('' # mk'" using is_marker_Cons by blast
  have "match_at level_pattern (CHR ''('' # mk' @ post) =
      Some \<lparr>group0 = mk, groups = [x], after = post\<rparr>"
    using match_at_level [OF assms, of post] mk by simp
  then show ?case using mk by simp
next
  case (Cons p ps)
  from Cons.prems have "\<not> marker_at ((p # ps) @ mk @ post)" by blast
  then have "match_at level_pattern (p # ps @ mk @ post) = None"
    by (simp add: match_at_level_None)
  then have "re_search level_pattern ((p # ps) @ mk @ post) =
      re_search level_pattern (ps @ mk @ post)"
    by simp
  moreover have "\<forall>pre1 pre2. ps = pre1 @ pre2 \<and> pre2 \<noteq> [] \<longrightarrow> \<not> marker_at (pre2 @ mk @ post)"
  proof (intro allI impI)
    fix pre1 pre2
    assume "ps = pre1 @ pre2 \<and> pre2 \<noteq> []"
    then have "p # ps = (p # pre1) @ pre2 \<and> pre2 \<noteq> []" by simp
    with Cons.prems show "\<not> marker_at (pre2 @ mk @ post)" by blast
  qed
  ultimately show ?case using Cons.IH by simp
qed

lemma html_level_of_first: "first_marker s x \<Longrightarrow> html_level_of s = Some x"
proof -
  assume "first_marker s x"
  then obtain pre mk post where s: "s = pre @ mk @ post" and m: "is_marker x mk"
    and f: "\<forall>pre1 pre2. pre = pre1 @ pre2 \<and> pre2 \<noteq> [] \<longrightarrow> \<not> marker_at (pre2 @ mk @ post)"
    unfolding first_marker_def by blast
  from re_search_level_first [OF m f] s show ?thesis
    by (simp add: html_level_of_def)
qed

lemma html_level_of_None: "\<not> has_marker s \<Longrightarrow> html_level_of s = None"
proof -
  assume "\<not> has_marker s"
  then have "re_search level_pattern s = None"
  proof (induction s)
    case Nil
    then show ?case by (simp add: match_at_level_None not_marker_at_Nil)
  next
    case (Cons c cs)
    then have "\<not> marker_at (c # cs)" "\<not> has_marker cs" by (simp_all add: has_marker_Cons)
    with Cons.IH show ?case by (simp add: match_at_level_None)
  qed
  then show ?thesis by (simp add: html_level_of_def)
qed

lemma has_marker_first: "has_marker s \<Longrightarrow> \<exists>x. first_marker s x"
proof (induction s)
  case Nil
  then show ?case by (simp add: not_has_marker_Nil)
next
  case (Cons c cs)
  show ?case
  proof (cases "marker_at (c # cs)")
    case True
    then obtain x mk post where m: "is_marker x mk" "c # cs = mk @ post"
      unfolding marker_at_def by blast
    then have "c # cs = [] @ mk @ post" by simp
    with m(1) have "first_marker (c # cs) x" unfolding first_marker_def by blast
    then show ?thesis ..
  next
    case False
    with Cons.prems have "has_marker cs" by (simp add: has_marker_Cons)
    with Cons.IH obtain x where "first_marker cs x" by blast
    then obtain pre mk post where s: "cs = pre @ mk @ post" and m: "is_marker x mk"
      and f: "\<forall>pre1 pre2. pre = pre1 @ pre2 \<and> pre2 \<noteq> [] \<longrightarrow> \<not> marker_at (pre2 @ mk @ post)"
      unfolding first_marker_def by blast
    have "\<forall>pre1 pre2. c # pre = pre1 @ pre2 \<and> pre2 \<noteq> [] \<longrightarrow> \<not> marker_at (pre2 @ mk @ post)"
    proof (intro allI impI)
      fix pre1 pre2
      assume a: "c # pre = pre1 @ pre2 \<and> pre2 \<noteq> []"
      show "\<not> marker_at (pre2 @ mk @ post)"
      proof (cases pre1)
        case Nil
        with a have "pre2 = c # pre" by simp
        with s False show ?thesis by simp
      next
        case (Cons d pre1')
        with a have "pre = pre1' @ pre2 \<and> pre2 \<noteq> []" by simp
        with f show ?thesis by blast
      qed
    qed
    moreover have "c # cs = (c # pre) @ mk @ post" using s by simp
    ultimately have "first_marker (c # cs) x" using m unfolding first_marker_def by blast
    then show ?thesis ..
  qed
qed

lemma strip_around:
  assumes "\<not> isspace (hd mid)" and "\<not> isspace (last mid)" and "mid \<noteq> []"
  shows "strip (pre @ mid @ post) =
     dropWhile isspace pre @ mid @ rev (dropWhile isspace (rev post))"
proof -
  from assms(1,3) obtain c cs where c: "mid = c # cs" "\<not> isspace c" by (cases mid) auto
  from assms(2,3) obtain d ds where d: "rev mid = d # ds" "\<not> isspace d"
    by (cases "rev mid") (auto simp: last_rev [symmetric] hd_rev)
  have "dropWhile isspace (pre @ mid @ post) = dropWhile isspace pre @ mid @ post"
    using c by (simp add: dropWhile_append3)
  then have "strip (pre @ mid @ post) =
      rev (dropWhile isspace (rev post @ d # ds @ rev (dropWhile isspace pre)))"
    using d by (simp add: strip_def)
  also have "\<dots> = rev (dropWhile isspace (rev post) @ d # ds @ rev (dropWhile isspace pre))"
    using d(2) by (simp add: dropWhile_append3)
  also have "\<dots> = dropWhile isspace pre @ rev (d # ds) @ rev (dropWhile isspace (rev post))"
    by simp
  also have "rev (d # ds) = mid" using d(1) by (metis rev_rev_ident)
  finally show ?thesis .
qed

lemma is_marker_ends:
  assumes "is_marker x mk"
  shows "mk \<noteq> []" "\<not> isspace (hd mk)" "\<not> isspace (last mk)"
  using assms by (auto simp: is_marker_def isspace_def)

lemma first_marker_strip: "first_marker b x \<Longrightarrow> first_marker (strip b) x"
proof -
  assume "first_marker b x"
  then obtain pre mk post where s: "b = pre @ mk @ post" and m: "is_marker x mk"
    and f: "\<forall>pre1 pre2. pre = pre1 @ pre2 \<and> pre2 \<noteq> [] \<longrightarrow> \<not> marker_at (pre2 @ mk @ post)"
    unfolding first_marker_def by blast
  let ?pre = "dropWhile isspace pre"
  let ?post = "rev (dropWhile isspace (rev post))"
  have sb: "strip b = ?pre @ mk @ ?post"
    using s is_marker_ends [OF m] by (simp add: strip_around)
  have post: "post = ?post @ rev (takeWhile isspace (rev post))"
    by (metis rev_append rev_rev_ident takeWhile_dropWhile_id)
  have "\<forall>pre1 pre2. ?pre = pre1 @ pre2 \<and> pre2 \<noteq> [] \<longrightarrow> \<not> marker_at (pre2 @ mk @ ?post)"
  proof (intro allI impI notI)
    fix pre1 pre2
    assume a: "?pre = pre1 @ pre2 \<and> pre2 \<noteq> []" and ma: "marker_at (pre2 @ mk @ ?post)"
    from ma have "marker_at ((pre2 @ mk @ ?post) @ rev (takeWhile isspace (rev post)))"
      by (rule marker_at_append)
    then have "marker_at (pre2 @ mk @ (?post @ rev (takeWhile isspace (rev post))))"
      by (simp only: append.assoc)
    then have "marker_at (pre2 @ mk @ post)" by (simp only: post [symmetric])
    moreover have "pre = (takeWhile isspace pre @ pre1) @ pre2 \<and> pre2 \<noteq> []"
      using a by (metis append.assoc takeWhile_dropWhile_id)
    ultimately show False using f by blast
  qed
  with sb m show ?thesis unfolding first_marker_def by blast
qed

text \<open>
  C4 (as amended). For a pair whose heading is taken apart, \<open>wcag_scraper.py\<close> appends
  a chunk and raises no error. If the body contains a marker, it has a leftmost one, and
  \<open>level\<close> is the letters of the leftmost marker; with no marker in the body \<open>level\<close>
  is \<open>None\<close>. The text of the chunk contains no marker when the body is not spliced,
  that is when no marker in it directly follows the beginning of another one.
\<close>

theorem level_extracted:
  assumes "re_match html_header_pattern (clean_html (Some h)) = Some m"
  shows "\<exists>c. html_body h b = Append c \<and> html_loop [(h, b)] [] = Inr [c] \<and>
           (has_marker b \<longrightarrow> (\<exists>x. first_marker b x)) \<and>
           (\<forall>x. first_marker b x \<longrightarrow> html_level c = Some x) \<and>
           (\<not> has_marker b \<longrightarrow> html_level c = None) \<and>
           (\<not> spliced b \<longrightarrow> \<not> has_marker (html_text c))"
proof -
  from assms html_body_cases [of h b] obtain sec title where
    c: "html_body h b = Append \<lparr>html_id = sec, html_section = sec, html_title = title,
        html_level = html_level_of (strip b),
        html_text = clean_html (Some (re_sub level_text_pattern [] (strip b))),
        html_source = WCAG_URL\<rparr>"
    by auto
  let ?c = "\<lparr>html_id = sec, html_section = sec, html_title = title,
        html_level = html_level_of (strip b),
        html_text = clean_html (Some (re_sub level_text_pattern [] (strip b))),
        html_source = WCAG_URL\<rparr>"
  have 1: "html_loop [(h, b)] [] = Inr [?c]" using c by simp
  have 2: "has_marker b \<longrightarrow> (\<exists>x. first_marker b x)" using has_marker_first by blast
  have 3: "\<forall>x. first_marker b x \<longrightarrow> html_level ?c = Some x"
    using first_marker_strip html_level_of_first by simp
  have 4: "\<not> has_marker b \<longrightarrow> html_level ?c = None"
    using has_marker_strip html_level_of_None by auto
  have 5: "\<not> spliced b \<longrightarrow> \<not> has_marker (html_text ?c)"
    using html_text_no_marker by simp
  from c 1 2 3 4 5 show ?thesis by blast
qed

lemma is_marker_examples:
  "is_marker ''A'' ''(Level A)''" "is_marker ''AA'' ''(Level AA)''"
  using is_markerI [of "'' ''" "''A''"] is_markerI [of "'' ''" "''AA''"]
  by (simp_all add: isspace_def)

lemma has_marker_paren: "has_marker s \<Longrightarrow> CHR ''('' \<in> set s"
  unfolding has_marker_def by (auto dest!: marker_at_Cons)

lemma marker_atI: "is_marker x mk \<Longrightarrow> marker_at (mk @ post)"
  unfolding marker_at_def by blast

lemma has_markerI: "marker_at rest \<Longrightarrow> has_marker (pre @ rest)"
  unfolding has_marker_def by blast

lemma first_markerI:
  assumes "is_marker x mk" and "CHR ''('' \<notin> set pre"
  shows "first_marker (pre @ mk @ post) x"
proof -
  have "\<not> (\<exists>pre1 pre2. pre = pre1 @ pre2 \<and> pre2 \<noteq> [] \<and> marker_at (pre2 @ mk @ post))"
  proof
    assume "\<exists>pre1 pre2. pre = pre1 @ pre2 \<and> pre2 \<noteq> [] \<and> marker_at (pre2 @ mk @ post)"
    then obtain pre1 pre2 where p: "pre = pre1 @ pre2" "pre2 \<noteq> []"
      "marker_at (pre2 @ mk @ post)" by blast
    from p(2) obtain d ds where d: "pre2 = d # ds" by (cases pre2) auto
    with p(3) have "d = CHR ''(''" using marker_at_Cons [of "d # ds @ mk @ post"] by simp
    with p(1) d have "CHR ''('' \<in> set pre" by simp
    with assms(2) show False by simp
  qed
  with assms(1) show ?thesis unfolding first_marker_def by blast
qed

lemma marker_start_Cons: "marker_start p \<Longrightarrow> \<exists>p'. p = CHR ''('' # p'"
proof -
  assume "marker_start p"
  then obtain q x where p: "p \<noteq> []" "is_marker x (p @ q)"
    unfolding marker_start_def by blast
  from p(2) obtain mk' where "p @ q = CHR ''('' # mk'" using is_marker_Cons by blast
  with p(1) show ?thesis by (cases p) simp_all
qed

lemma spliced_parens: "spliced s \<Longrightarrow> 2 \<le> count_list s CHR ''(''"
proof -
  assume "spliced s"
  then obtain pre p mk x post where s: "s = pre @ p @ mk @ post" "marker_start p"
    "is_marker x mk"
    unfolding spliced_def by blast
  from s(2) obtain p' where "p = CHR ''('' # p'" using marker_start_Cons by blast
  moreover from s(3) obtain mk' where "mk = CHR ''('' # mk'" using is_marker_Cons by blast
  ultimately show ?thesis using s(1) by simp
qed

theorem level_extracted_witness:
  "re_match html_header_pattern (clean_html (Some ''Success Criterion 1.2.1 T'')) =
     Some \<lparr>group0 = ''Success Criterion 1.2.1 T'', groups = [''1.2.1'', ''T''], after = []\<rparr> \<and>
   first_marker ''Provide transcript. (Level AA)'' ''AA'' \<and>
   \<not> spliced ''Provide transcript. (Level AA)'' \<and>
   html_body ''Success Criterion 1.2.1 T'' ''Provide transcript. (Level AA)'' =
     Append \<lparr>html_id = ''1.2.1'', html_section = ''1.2.1'', html_title = ''T'',
       html_level = Some ''AA'', html_text = ''Provide transcript.'', html_source = WCAG_URL\<rparr> \<and>
   \<not> has_marker ''Provide transcript.'' \<and>
   \<not> has_marker ''No level here'' \<and>
   html_body ''Success Criterion 1.2.1 T'' ''No level here'' =
     Append \<lparr>html_id = ''1.2.1'', html_section = ''1.2.1'', html_title = ''T'',
       html_level = None, html_text = ''No level here'', html_source = WCAG_URL\<rparr>"
proof -
  let ?h = "''Success Criterion 1.2.1 T''"
  let ?b = "''Provide transcript. (Level AA)''"
  let ?b2 = "''No level here''"
  let ?m = "\<lparr>group0 = ''Success Criterion 1.2.1 T'', groups = [''1.2.1'', ''T''], after = []\<rparr>"
  let ?c = "\<lparr>html_id = ''1.2.1'', html_section = ''1.2.1'', html_title = ''T'',
       html_level = Some ''AA'', html_text = ''Provide transcript.'', html_source = WCAG_URL\<rparr>"
  have h: "re_match html_header_pattern (clean_html (Some ?h)) = Some ?m" by code_simp
  have "first_marker (''Provide transcript. '' @ ''(Level AA)'' @ []) ''AA''"
    by (rule first_markerI [OF is_marker_examples(2)]) simp
  then have f: "first_marker ?b ''AA''" by simp
  have "count_list ?b CHR ''('' = 1" by simp
  then have s: "\<not> spliced ?b" using spliced_parens [of ?b] by linarith
  have "CHR ''('' \<notin> set ?b2" by simp
  then have n: "\<not> has_marker ?b2" using has_marker_paren [of ?b2] by blast
  have e1: "html_body ?h ?b = Append ?c" by code_simp
  have e2: "html_body ?h ?b2 =
     Append \<lparr>html_id = ''1.2.1'', html_section = ''1.2.1'', html_title = ''T'',
       html_level = None, html_text = ''No level here'', html_source = WCAG_URL\<rparr>"
    by code_simp
  from level_extracted [OF h, of ?b] obtain c where
    c: "html_body ?h ?b = Append c" "\<not> spliced ?b \<longrightarrow> \<not> has_marker (html_text c)"
    by blast
  from c(1) e1 have "c = ?c" by simp
  with c(2) s have c1: "\<not> has_marker ''Provide transcript.''" by simp
  from h f s e1 c1 n e2 show ?thesis by (intro conjI)
qed

text \<open>
  C4 as stated fails: \<open>re.sub\<close> makes one pass, and in \<open>(Level (Level A)A)\<close>
  taking out the inner marker leaves \<open>(Level A)\<close> in the text of the chunk.
\<close>

theorem level_text_counterexample:
  "has_marker ''(Level (Level A)A)'' \<and>
   html_body ''Success Criterion 1.1.1 T'' ''(Level (Level A)A)'' =
     Append \<lparr>html_id = ''1.1.1'', html_section = ''1.1.1'', html_title = ''T'',
       html_level = Some ''A'', html_text = ''(Level A)'', html_source = WCAG_URL\<rparr> \<and>
   has_marker ''(Level A)''"
proof -
  have "has_marker (''(Level '' @ ''(Level A)'' @ ''A)'')"
    by (rule has_markerI, rule marker_atI, rule is_marker_examples(1))
  then have 1: "has_marker ''(Level (Level A)A)''" by simp
  have "has_marker ([] @ ''(Level A)'' @ [])"
    by (rule has_markerI, rule marker_atI, rule is_marker_examples(1))
  then have 3: "has_marker ''(Level A)''" by simp
  have 2: "html_body ''Success Criterion 1.1.1 T'' ''(Level (Level A)A)'' =
     Append \<lparr>html_id = ''1.1.1'', html_section = ''1.1.1'', html_title = ''T'',
       html_level = Some ''A'', html_text = ''(Level A)'', html_source = WCAG_URL\<rparr>"
    by code_simp
  from 1 2 3 show ?thesis by (intro conjI)
qed

section \<open>The example of the heading scripts\<close>

text \<open>
  C1 (as amended). On the text of the example \<open>wcag22pdfscraper.py\<close>, whose
  heading pattern is the one named, returns two chunks with the ids and titles of the
  example; it has no \<open>level\<close> and the marker stays in \<open>text\<close>.
  \<open>wcag_scraper.py\<close>, whose headings start with \<open>Success Criterion\<close>, returns no
  chunk on that text, and on the text with \<open>Success Criterion\<close> before each heading it
  returns the two chunks of the example, with levels \<open>A\<close> and \<open>AA\<close> and the marker
  taken out of \<open>text\<close>.
\<close>

theorem heading_example:
  "pdf_chunks ''1.1.1 Non-text Content\<newline>All content has alt text. (Level A)\<newline>1.2.1 Audio-only\<newline>Provide transcript. (Level AA)\<newline>'' =
     Inr [\<lparr>pdf_id = ''1.1.1'', pdf_section = ''1.1.1'', pdf_title = ''Non-text Content'',
            pdf_text = ''All content has alt text. (Level A)'', pdf_source = ''WCAG 2.2 PDF''\<rparr>,
          \<lparr>pdf_id = ''1.2.1'', pdf_section = ''1.2.1'', pdf_title = ''Audio-only'',
            pdf_text = ''Provide transcript. (Level AA)'', pdf_source = ''WCAG 2.2 PDF''\<rparr>] \<and>
   extract_success_criteria ''1.1.1 Non-text Content\<newline>All content has alt text. (Level A)\<newline>1.2.1 Audio-only\<newline>Provide transcript. (Level AA)\<newline>'' = Inr [] \<and>
   extract_success_criteria ''Success Criterion 1.1.1 Non-text Content\<newline>All content has alt text. (Level A)\<newline>Success Criterion 1.2.1 Audio-only\<newline>Provide transcript. (Level AA)\<newline>'' =
     Inr [\<lparr>html_id = ''1.1.1'', html_section = ''1.1.1'', html_title = ''Non-text Content'',
            html_level = Some ''A'', html_text = ''All content has alt text.'',
            html_source = WCAG_URL\<rparr>,
          \<lparr>html_id = ''1.2.1'', html_section = ''1.2.1'', html_title = ''Audio-only'',
            html_level = Some ''AA'', html_text = ''Provide transcript.'',
            html_source = WCAG_URL\<rparr>]"
  by code_simp

text \<open>
  C1 as stated fails for both scripts: neither returns, on the text of the example, the
  two chunks with the texts \<open>All content has alt text.\<close> and
  \<open>Provide transcript.\<close>
\<close>

theorem heading_example_counterexample:
  "pdf_chunks ''1.1.1 Non-text Content\<newline>All content has alt text. (Level A)\<newline>1.2.1 Audio-only\<newline>Provide transcript. (Level AA)\<newline>'' \<noteq>
     Inr [\<lparr>pdf_id = ''1.1.1'', pdf_section = ''1.1.1'', pdf_title = ''Non-text Content'',
            pdf_text = ''All content has alt text.'', pdf_source = ''WCAG 2.2 PDF''\<rparr>,
          \<lparr>pdf_id = ''1.2.1'', pdf_section = ''1.2.1'', pdf_title = ''Audio-only'',
            pdf_text = ''Provide transcript.'', pdf_source = ''WCAG 2.2 PDF''\<rparr>] \<and>
   extract_success_criteria ''1.1.1 Non-text Content\<newline>All content has alt text. (Level A)\<newline>1.2.1 Audio-only\<newline>Provide transcript. (Level AA)\<newline>'' \<noteq>
     Inr [\<lparr>html_id = ''1.1.1'', html_section = ''1.1.1'', html_title = ''Non-text Content'',
            html_level = Some ''A'', html_text = ''All content has alt text.'',
            html_source = WCAG_URL\<rparr>,
          \<lparr>html_id = ''1.2.1'', html_section = ''1.2.1'', html_title = ''Audio-only'',
            html_level = Some ''AA'', html_text = ''Provide transcript.'',
            html_source = WCAG_URL\<rparr>]"
  by code_simp

end
